theory Spec2Isabelle
  imports Main
begin

section \<open>JavaScript maps\<close>

text \<open>
  The server keeps two \<^verbatim>\<open>Map\<close> objects: the process-wide \<^verbatim>\<open>redirectCache\<close> and the
  request-scoped \<^verbatim>\<open>cache\<close> of the shorten handler. A JavaScript \<^verbatim>\<open>Map\<close> iterates
  its keys in insertion order, \<^verbatim>\<open>set\<close> on a key that is present replaces the value
  and leaves the key where it is, \<^verbatim>\<open>set\<close> on a new key appends it, and
  \<^verbatim>\<open>delete\<close> removes the key. The model is an association list in iteration order,
  oldest insertion first.
\<close>

type_synonym ('k, 'v) jsmap = "('k \<times> 'v) list"

fun jsmap_get :: "'k \<Rightarrow> ('k, 'v) jsmap \<Rightarrow> 'v option" where
  "jsmap_get k [] = None"
| "jsmap_get k ((k', v) # m) = (if k' = k then Some v else jsmap_get k m)"

fun jsmap_set :: "'k \<Rightarrow> 'v \<Rightarrow> ('k, 'v) jsmap \<Rightarrow> ('k, 'v) jsmap" where
  "jsmap_set k v [] = [(k, v)]"
| "jsmap_set k v ((k', v') # m) =
     (if k' = k then (k, v) # m else (k', v') # jsmap_set k v m)"

fun jsmap_delete :: "'k \<Rightarrow> ('k, 'v) jsmap \<Rightarrow> ('k, 'v) jsmap" where
  "jsmap_delete k [] = []"
| "jsmap_delete k ((k', v) # m) =
     (if k' = k then jsmap_delete k m else (k', v) # jsmap_delete k m)"

definition jsmap_keys :: "('k, 'v) jsmap \<Rightarrow> 'k list" where
  "jsmap_keys m = map fst m"

section \<open>The redirect cache\<close>

text \<open>
  \<^verbatim>\<open>type CacheEntry = { value: string | null; expiresAt: number }\<close>. The value
  \<^verbatim>\<open>null\<close> (a cached 404) is \<open>None\<close>. Times are milliseconds, as
  \<^verbatim>\<open>Date.now()\<close> returns them.
\<close>

record CacheEntry =
  entryValue :: "string option"
  expiresAt :: int

type_synonym redirect_cache = "(string, CacheEntry) jsmap"

text \<open>
  The three constants read from the environment at start-up:
  \<^verbatim>\<open>REDIRECT_CACHE_MAX\<close> (default 1000), \<^verbatim>\<open>REDIRECT_CACHE_TTL_MS\<close> (default
  300000) and \<^verbatim>\<open>REDIRECT_CACHE_NEG_TTL_MS\<close> (default 30000).
\<close>

record cache_config =
  CACHE_MAX_ENTRIES :: int
  CACHE_TTL_MS :: int
  CACHE_404_TTL_MS :: int

definition default_config :: cache_config where
  "default_config =
     \<lparr>CACHE_MAX_ENTRIES = 1000, CACHE_TTL_MS = 5 * 60 * 1000, CACHE_404_TTL_MS = 30 * 1000\<rparr>"

text \<open>
  \<^verbatim>\<open>cacheGet\<close> answers \<^verbatim>\<open>undefined\<close> (\<open>None\<close>: a miss), \<^verbatim>\<open>null\<close>
  (\<open>Some None\<close>: a cached 404) or the cached address. It reads the clock twice: \<open>now1\<close>
  is the reading compared with \<^verbatim>\<open>expiresAt\<close>, \<open>now2\<close> the reading the new expiry is
  computed from.
\<close>

definition cacheGet ::
  "cache_config \<Rightarrow> int \<Rightarrow> int \<Rightarrow> string \<Rightarrow> redirect_cache \<Rightarrow> string option option \<times> redirect_cache"
where
  "cacheGet cfg now1 now2 key rc =
     (case jsmap_get key rc of
        None \<Rightarrow> (None, rc)
      | Some entry \<Rightarrow>
          if expiresAt entry \<le> now1 then (None, jsmap_delete key rc)
          else
            let ttl = (if entryValue entry = None then CACHE_404_TTL_MS cfg else CACHE_TTL_MS cfg)
            in (Some (entryValue entry),
                jsmap_set key \<lparr>entryValue = entryValue entry, expiresAt = now2 + ttl\<rparr>
                  (jsmap_delete key rc)))"

text \<open>
  \<^verbatim>\<open>cacheSet\<close>: \<^verbatim>\<open>redirectCache.set\<close>, then one eviction of
  \<^verbatim>\<open>redirectCache.keys().next().value\<close> when the size exceeds the bound.
\<close>

definition cacheSet ::
  "cache_config \<Rightarrow> int \<Rightarrow> string \<Rightarrow> string option \<Rightarrow> redirect_cache \<Rightarrow> redirect_cache"
where
  "cacheSet cfg now key v rc =
     (let ttl = (if v = None then CACHE_404_TTL_MS cfg else CACHE_TTL_MS cfg);
          rc' = jsmap_set key \<lparr>entryValue = v, expiresAt = now + ttl\<rparr> rc
      in if int (length rc') > CACHE_MAX_ENTRIES cfg
         then (case rc' of [] \<Rightarrow> rc' | (firstKey, _) # _ \<Rightarrow> jsmap_delete firstKey rc')
         else rc')"

text \<open>A run of \<^verbatim>\<open>cacheSet\<close> calls, each with its own clock reading, key and value.\<close>

fun cacheSets ::
  "cache_config \<Rightarrow> (int \<times> string \<times> string option) list \<Rightarrow> redirect_cache \<Rightarrow> redirect_cache"
where
  "cacheSets cfg [] rc = rc"
| "cacheSets cfg ((now, key, v) # ops) rc = cacheSets cfg ops (cacheSet cfg now key v rc)"

section \<open>Which attribute values are shortened\<close>

text \<open>
  A string is a list of code units; \<open>char\<close> offers the code units 0 to 255.
  \<^verbatim>\<open>String.prototype.trim\<close> removes white space and line terminators from both
  ends; in this range these are TAB, LF, VT, FF, CR, SPACE and NBSP.
  \<^verbatim>\<open>toLowerCase\<close> maps \<open>A\<close> to \<open>Z\<close> and the capitals of the range 192 to 222
  (all but the multiplication sign 215) to the code unit 32 above.
\<close>

definition isWhiteSpace :: "char \<Rightarrow> bool" where
  "isWhiteSpace c = (of_char c \<in> {9, 10, 11, 12, 13, 32, 160 :: nat})"

definition trim :: "string \<Rightarrow> string" where
  "trim s = rev (dropWhile isWhiteSpace (rev (dropWhile isWhiteSpace s)))"

definition lowerChar :: "char \<Rightarrow> char" where
  "lowerChar c =
     (let n = (of_char c :: nat)
      in if (65 \<le> n \<and> n \<le> 90) \<or> (192 \<le> n \<and> n \<le> 222 \<and> n \<noteq> 215)
         then char_of (n + 32) else c)"

definition toLowerCase :: "string \<Rightarrow> string" where
  "toLowerCase s = map lowerChar s"

definition startsWith :: "string \<Rightarrow> string \<Rightarrow> bool" where
  "startsWith s p = (take (length p) s = p)"

text \<open>
  \<^verbatim>\<open>isShortenable(href: string | undefined | null)\<close>. \<open>None\<close> is an attribute the
  element does not have; \<^verbatim>\<open>!href\<close> also holds of the empty string.
\<close>

definition isShortenable :: "string option \<Rightarrow> bool" where
  "isShortenable href =
     (case href of
        None \<Rightarrow> False
      | Some h \<Rightarrow>
          if h = [] then False
          else
            let lower = toLowerCase (trim h)
            in if startsWith lower ''mailto:'' then False
               else if startsWith lower ''tel:'' then False
               else if startsWith lower ''javascript:'' then False
               else if startsWith lower ''#'' then False
               else startsWith lower ''http://'' \<or> startsWith lower ''https://'')"

section \<open>The durable store, as the server sees it\<close>

text \<open>
  The table of the Prisma schema: \<^verbatim>\<open>model Url { id, shortId @unique, originalUrl
  @unique, createdAt }\<close>. The server reads and writes \<^verbatim>\<open>shortId\<close> and
  \<^verbatim>\<open>originalUrl\<close> only.
\<close>

record Url =
  shortId :: string
  originalUrl :: string

text \<open>
  What a store call can throw. A \<^verbatim>\<open>PrismaClientKnownRequestError\<close> carries its
  \<^verbatim>\<open>code\<close> and \<^verbatim>\<open>meta.target\<close>, which the server reads as
  \<^verbatim>\<open>string[] | string | undefined\<close>; \<open>Error\<close> is any other exception, with its
  message.
\<close>

datatype meta_target = TargetArray "string list" | TargetString string | TargetUndefined

datatype error = PrismaClientKnownRequestError string meta_target | Error string

text \<open>
  The three calls the server makes on \<^verbatim>\<open>prisma.url\<close>. The store is a parameter:
  each call takes the store's state and returns its answer, or the error it throws, and
  the state after the call.
\<close>

record 'db prisma =
  findUnique :: "string \<Rightarrow> 'db \<Rightarrow> (error + Url option) \<times> 'db"
  findFirst :: "string \<Rightarrow> 'db \<Rightarrow> (error + Url option) \<times> 'db"
  create :: "string \<Rightarrow> string \<Rightarrow> 'db \<Rightarrow> (error + Url) \<times> 'db"

section \<open>The short-id allocator\<close>

text \<open>
  \<^verbatim>\<open>const targets = Array.isArray(target) ? target : target ? [target] : []\<close>; the
  empty string is falsy.
\<close>

definition targets_of :: "meta_target \<Rightarrow> string list" where
  "targets_of target =
     (case target of
        TargetArray ts \<Rightarrow> ts
      | TargetString t \<Rightarrow> (if t \<noteq> [] then [t] else [])
      | TargetUndefined \<Rightarrow> [])"

text \<open>
  \<^verbatim>\<open>createUrlWithUniqueShortId(originalUrl, length, maxAttempts)\<close>. The random
  generator is the parameter \<open>nanoid\<close>: \<open>nanoid n len\<close> is what the \<open>n\<close>-th call of
  \<^verbatim>\<open>nanoid(len)\<close> in the life of the process returns, and the state carries the
  number of calls made so far beside the store. \<open>attempt\<close> is the loop counter and
  \<open>lastError\<close> the variable of that name.
\<close>

function createUrlLoop ::
  "'db prisma \<Rightarrow> (nat \<Rightarrow> nat \<Rightarrow> string) \<Rightarrow> string \<Rightarrow> nat \<Rightarrow> nat \<Rightarrow> nat \<Rightarrow> error option
     \<Rightarrow> 'db \<times> nat \<Rightarrow> (error + string) \<times> ('db \<times> nat)"
where
  "createUrlLoop P nanoid url len maxAttempts attempt lastError (d, n) =
     (if attempt < maxAttempts then
        (case create P (nanoid n len) url d of
           (Inr _, d') \<Rightarrow> (Inr (nanoid n len), (d', Suc n))
         | (Inl e, d') \<Rightarrow>
             (case e of
                PrismaClientKnownRequestError code target \<Rightarrow>
                  if code = ''P2002''
                     \<and> (length (targets_of target) = 0 \<or> ''shortId'' \<in> set (targets_of target))
                  then createUrlLoop P nanoid url len maxAttempts (Suc attempt) (Some e) (d', Suc n)
                  else (Inl e, (d', Suc n))
              | Error _ \<Rightarrow> (Inl e, (d', Suc n))))
      else
        (Inl (case lastError of
                Some e \<Rightarrow> e
              | None \<Rightarrow> Error ''Failed to generate a unique shortId after multiple attempts''),
         (d, n)))"
  by pat_completeness auto
termination
  by (relation "measure (\<lambda>(P, nanoid, url, len, maxAttempts, attempt, lastError, s). maxAttempts - attempt)")
     auto

declare createUrlLoop.simps [simp del]

definition createUrlWithUniqueShortId ::
  "'db prisma \<Rightarrow> (nat \<Rightarrow> nat \<Rightarrow> string) \<Rightarrow> string \<Rightarrow> nat \<Rightarrow> nat
     \<Rightarrow> 'db \<times> nat \<Rightarrow> (error + string) \<times> ('db \<times> nat)"
where
  "createUrlWithUniqueShortId P nanoid url len maxAttempts s =
     createUrlLoop P nanoid url len maxAttempts 0 None s"

section \<open>The shorten handler\<close>

text \<open>
  The handler works on the document \<^verbatim>\<open>cheerio.load(html)\<close> returns and answers
  with \<^verbatim>\<open>$.html()\<close> of the document it has rewritten. The document is a forest of
  nodes: an element has a name, its attributes in source order and its children; every
  other node (text, comment, directive) is a leaf the handler never looks at.
\<close>

datatype node = Element string "(string, string) jsmap" "node list" | Text string

text \<open>\<^verbatim>\<open>$(tag)\<close>: the attributes of the elements of that name, in document order.\<close>

fun select :: "string \<Rightarrow> node \<Rightarrow> (string, string) jsmap list" where
  "select tag (Text t) = []"
| "select tag (Element name attribs children) =
     (if name = tag then [attribs] else []) @ concat (map (select tag) children)"

definition selectAll :: "string \<Rightarrow> node list \<Rightarrow> (string, string) jsmap list" where
  "selectAll tag doc = concat (map (select tag) doc)"

text \<open>
  \<^verbatim>\<open>$(tag).each(callback)\<close> for a callback that changes the attributes of the
  element it is given and nothing else.
\<close>

fun each :: "string \<Rightarrow> ((string, string) jsmap \<Rightarrow> (string, string) jsmap) \<Rightarrow> node \<Rightarrow> node" where
  "each tag f (Text t) = Text t"
| "each tag f (Element name attribs children) =
     Element name (if name = tag then f attribs else attribs) (map (each tag f) children)"

definition attrTargets :: "(string \<times> string) list" where
  "attrTargets =
     [(''a'', ''href''), (''area'', ''href''), (''link'', ''href''), (''img'', ''src''),
      (''script'', ''src'')]"

text \<open>
  The callback of the first pass: \<^verbatim>\<open>if (!isShortenable(href)) return; let shortUrl =
  cache.get(href); if (!shortUrl) cache.set(href, '')\<close>.
\<close>

definition collectUrl ::
  "string \<Rightarrow> (string, string) jsmap \<Rightarrow> (string, string) jsmap \<Rightarrow> (string, string) jsmap"
where
  "collectUrl attr attribs cache =
     (let href = jsmap_get attr attribs
      in if \<not> isShortenable href then cache
         else
           (case href of
              None \<Rightarrow> cache
            | Some h \<Rightarrow>
                (case jsmap_get h cache of
                   None \<Rightarrow> jsmap_set h [] cache
                 | Some shortUrl \<Rightarrow> if shortUrl = [] then jsmap_set h [] cache else cache)))"

definition collectUrls :: "node list \<Rightarrow> (string, string) jsmap" where
  "collectUrls doc =
     fold (\<lambda>(tag, attr) cache. fold (collectUrl attr) (selectAll tag doc) cache) attrTargets []"

text \<open>
  \<^verbatim>\<open>Array.from(new Set(keys))\<close>: a \<^verbatim>\<open>Set\<close> keeps the first occurrence of each
  value, in insertion order.
\<close>

definition arrayFromSet :: "string list \<Rightarrow> string list" where
  "arrayFromSet xs = fold (\<lambda>x acc. if x \<in> set acc then acc else acc @ [x]) xs []"

text \<open>
  One turn of the loop over \<^verbatim>\<open>uniqueUrls\<close>, up to the short id: the lookup by
  \<^verbatim>\<open>originalUrl\<close>, and \<^verbatim>\<open>createUrlWithUniqueShortId(originalUrl, 8, 6)\<close> when
  nothing is found.
\<close>

definition allocate ::
  "'db prisma \<Rightarrow> (nat \<Rightarrow> nat \<Rightarrow> string) \<Rightarrow> string \<Rightarrow> 'db \<times> nat \<Rightarrow> (error + string) \<times> ('db \<times> nat)"
where
  "allocate P nanoid url s =
     (case s of (d, n) \<Rightarrow>
        (case findFirst P url d of
           (Inl e, d') \<Rightarrow> (Inl e, (d', n))
         | (Inr (Some existing), d') \<Rightarrow> (Inr (shortId existing), (d', n))
         | (Inr None, d') \<Rightarrow> createUrlWithUniqueShortId P nanoid url 8 6 (d', n)))"

text \<open>
  The loop itself. An exception leaves it at once; what the store has taken until then
  stays in the store.
\<close>

fun resolveUrls ::
  "'db prisma \<Rightarrow> (nat \<Rightarrow> nat \<Rightarrow> string) \<Rightarrow> string \<Rightarrow> string list \<Rightarrow> (string, string) jsmap
     \<Rightarrow> 'db \<times> nat \<Rightarrow> (error + (string, string) jsmap) \<times> ('db \<times> nat)"
where
  "resolveUrls P nanoid BASE_URL [] cache s = (Inr cache, s)"
| "resolveUrls P nanoid BASE_URL (url # urls) cache s =
     (case allocate P nanoid url s of
        (Inl e, s') \<Rightarrow> (Inl e, s')
      | (Inr sid, s') \<Rightarrow>
          resolveUrls P nanoid BASE_URL urls (jsmap_set url (BASE_URL @ ''/r/'' @ sid) cache) s')"

text \<open>
  The callback of the last pass: \<^verbatim>\<open>if (!isShortenable(href)) return; const shortUrl =
  cache.get(href); if (shortUrl) $el.attr(attr, shortUrl)\<close>.
\<close>

definition replaceUrl ::
  "(string, string) jsmap \<Rightarrow> string \<Rightarrow> (string, string) jsmap \<Rightarrow> (string, string) jsmap"
where
  "replaceUrl cache attr attribs =
     (let href = jsmap_get attr attribs
      in if \<not> isShortenable href then attribs
         else
           (case href of
              None \<Rightarrow> attribs
            | Some h \<Rightarrow>
                (case jsmap_get h cache of
                   None \<Rightarrow> attribs
                 | Some shortUrl \<Rightarrow>
                     if shortUrl \<noteq> [] then jsmap_set attr shortUrl attribs else attribs)))"

definition applyReplacements :: "(string, string) jsmap \<Rightarrow> node list \<Rightarrow> node list" where
  "applyReplacements cache doc =
     fold (\<lambda>(tag, attr) d. map (each tag (replaceUrl cache attr)) d) attrTargets doc"

text \<open>
  What a handler sends: \<^verbatim>\<open>res.redirect(url)\<close>, \<^verbatim>\<open>404 Not found\<close>,
  \<^verbatim>\<open>500 Internal server error\<close>, or the rewritten document with status 200.
\<close>

datatype response = Redirect string | NotFound | InternalServerError | Html "node list"

text \<open>
  \<^verbatim>\<open>POST /shorten\<close>, from the parsed document on; reading the request body, with
  its 400 and 415 answers, comes before and is left out. The \<^verbatim>\<open>catch\<close> of the
  handler turns every exception into the 500 answer.
\<close>

definition shorten ::
  "'db prisma \<Rightarrow> (nat \<Rightarrow> nat \<Rightarrow> string) \<Rightarrow> string \<Rightarrow> node list \<Rightarrow> 'db \<times> nat \<Rightarrow> response \<times> ('db \<times> nat)"
where
  "shorten P nanoid BASE_URL doc s =
     (let cache = collectUrls doc;
          uniqueUrls = arrayFromSet (jsmap_keys cache)
      in case resolveUrls P nanoid BASE_URL uniqueUrls cache s of
           (Inl e, s') \<Rightarrow> (InternalServerError, s')
         | (Inr cache', s') \<Rightarrow> (Html (applyReplacements cache' doc), s'))"

section \<open>The redirect handler\<close>

text \<open>
  \<^verbatim>\<open>GET /r/:id\<close>. \<open>now1\<close> and \<open>now2\<close> are the clock readings of
  \<^verbatim>\<open>cacheGet\<close>, \<open>now3\<close> the reading of the \<^verbatim>\<open>cacheSet\<close> that follows the
  store's answer. The handler is taken as one step: no other request touches the cache
  between its \<^verbatim>\<open>cacheGet\<close> and its \<^verbatim>\<open>cacheSet\<close>.
\<close>

definition redirect ::
  "'db prisma \<Rightarrow> cache_config \<Rightarrow> int \<Rightarrow> int \<Rightarrow> int \<Rightarrow> string \<Rightarrow> 'db \<times> redirect_cache
     \<Rightarrow> response \<times> ('db \<times> redirect_cache)"
where
  "redirect P cfg now1 now2 now3 ident s =
     (case s of (d, rc) \<Rightarrow>
        (case cacheGet cfg now1 now2 ident rc of
           (Some None, rc') \<Rightarrow> (NotFound, (d, rc'))
         | (Some (Some cached), rc') \<Rightarrow> (Redirect cached, (d, rc'))
         | (None, rc') \<Rightarrow>
             (case findUnique P ident d of
                (Inl e, d') \<Rightarrow> (InternalServerError, (d', rc'))
              | (Inr None, d') \<Rightarrow> (NotFound, (d', cacheSet cfg now3 ident None rc'))
              | (Inr (Some row), d') \<Rightarrow>
                  (Redirect (originalUrl row),
                   (d', cacheSet cfg now3 ident (Some (originalUrl row)) rc')))))"

section \<open>A store\<close>

text \<open>
  Modelled from the spec: the durable store, which the repository takes from Prisma and
  SQLite and has no source of. The spec (section 6) and the schema give its contract:
  lookup by \<^verbatim>\<open>shortId\<close> and by \<^verbatim>\<open>originalUrl\<close>, and a \<^verbatim>\<open>create\<close> that fails
  with the unique-constraint error \<^verbatim>\<open>P2002\<close> naming the field in conflict. The state
  is the list of rows. Where both fields are in conflict this store names
  \<^verbatim>\<open>shortId\<close>.
\<close>

definition uniqueViolation :: "string \<Rightarrow> error" where
  "uniqueViolation field = PrismaClientKnownRequestError ''P2002'' (TargetArray [field])"

definition tableStore :: "(Url list) prisma" where
  "tableStore =
     \<lparr>findUnique = (\<lambda>sid rows. (Inr (find (\<lambda>r. shortId r = sid) rows), rows)),
      findFirst = (\<lambda>url rows. (Inr (find (\<lambda>r. originalUrl r = url) rows), rows)),
      create = (\<lambda>sid url rows.
        if sid \<in> set (map shortId rows) then (Inl (uniqueViolation ''shortId''), rows)
        else if url \<in> set (map originalUrl rows) then (Inl (uniqueViolation ''originalUrl''), rows)
        else (Inr \<lparr>shortId = sid, originalUrl = url\<rparr>,
              rows @ [\<lparr>shortId = sid, originalUrl = url\<rparr>]))\<rparr>"

text \<open>
  A store that records the calls it receives, in order, beside the state of the store it
  wraps; a \<^verbatim>\<open>create\<close> is recorded with whether it succeeded.
\<close>

datatype store_call = FindUnique string | FindFirst string | Create string string bool

definition traced :: "'db prisma \<Rightarrow> ('db \<times> store_call list) prisma" where
  "traced P =
     \<lparr>findUnique = (\<lambda>sid (d, calls).
        (case findUnique P sid d of (r, d') \<Rightarrow> (r, (d', calls @ [FindUnique sid])))),
      findFirst = (\<lambda>url (d, calls).
        (case findFirst P url d of (r, d') \<Rightarrow> (r, (d', calls @ [FindFirst url])))),
      create = (\<lambda>sid url (d, calls).
        (case create P sid url d of (r, d') \<Rightarrow> (r, (d', calls @ [Create sid url (\<not> isl r)]))))\<rparr>"

section \<open>The handler's view of a document\<close>

text \<open>
  The values of the targeted attributes, one for each element of a targeted name, in the
  order in which both passes of the handler visit them; \<open>None\<close> where the element has no
  such attribute.
\<close>

definition linkValues :: "node list \<Rightarrow> string option list" where
  "linkValues doc =
     concat (map (\<lambda>(tag, attr). map (jsmap_get attr) (selectAll tag doc)) attrTargets)"

text \<open>
  The two callbacks as functions of the attribute value alone: what the first pass does
  to the request's table, and the value the last pass leaves in the attribute.
\<close>

definition collectValue :: "string option \<Rightarrow> (string, string) jsmap \<Rightarrow> (string, string) jsmap" where
  "collectValue href cache =
     (if \<not> isShortenable href then cache
      else (case href of
              None \<Rightarrow> cache
            | Some h \<Rightarrow>
               (case jsmap_get h cache of
                  None \<Rightarrow> jsmap_set h [] cache
                | Some shortUrl \<Rightarrow> if shortUrl = [] then jsmap_set h [] cache else cache)))"

definition replaceValue :: "(string, string) jsmap \<Rightarrow> string option \<Rightarrow> string option" where
  "replaceValue cache href =
     (if \<not> isShortenable href then href
      else (case href of
              None \<Rightarrow> href
            | Some h \<Rightarrow>
               (case jsmap_get h cache of
                  None \<Rightarrow> href
                | Some shortUrl \<Rightarrow> if shortUrl \<noteq> [] then Some shortUrl else href)))"

text \<open>
  A document without the targeted attributes of its targeted elements: what is left is
  the tree, the names, the text and every other attribute, in order.
\<close>

fun withoutTargets :: "node \<Rightarrow> node" where
  "withoutTargets (Text t) = Text t"
| "withoutTargets (Element name attribs children) =
     Element name (filter (\<lambda>(k, v). (name, k) \<notin> set attrTargets) attribs)
       (map withoutTargets children)"

text \<open>
  In a record of store calls: the lookups by \<^verbatim>\<open>originalUrl\<close> for an address, the
  rows created for it, and the calls of \<^verbatim>\<open>create\<close> for it, failed ones included.
\<close>

definition lookups :: "string \<Rightarrow> store_call list \<Rightarrow> nat" where
  "lookups url calls = length (filter (\<lambda>c. c = FindFirst url) calls)"

definition creations :: "string \<Rightarrow> store_call list \<Rightarrow> nat" where
  "creations url calls =
     length (filter (\<lambda>c. case c of Create sid u ok \<Rightarrow> u = url \<and> ok | _ \<Rightarrow> False) calls)"

definition createCalls :: "string \<Rightarrow> store_call list \<Rightarrow> nat" where
  "createCalls url calls =
     length (filter (\<lambda>c. case c of Create sid u ok \<Rightarrow> u = url | _ \<Rightarrow> False) calls)"

section \<open>Stores, generators and documents for concrete runs\<close>

text \<open>
  A store in which the rows \<open>pending\<close> of another request land between this request's
  lookup by \<^verbatim>\<open>originalUrl\<close> and its \<^verbatim>\<open>create\<close>: the race of two shorten
  requests for one new address.
\<close>

definition racingStore :: "(Url list \<times> Url list) prisma" where
  "racingStore =
     \<lparr>findUnique = (\<lambda>sid (rows, pending).
        (case findUnique tableStore sid rows of (r, rows') \<Rightarrow> (r, (rows', pending)))),
      findFirst = (\<lambda>url (rows, pending).
        (case findFirst tableStore url rows of (r, rows') \<Rightarrow> (r, (rows' @ pending, [])))),
      create = (\<lambda>sid url (rows, pending).
        (case create tableStore sid url rows of (r, rows') \<Rightarrow> (r, (rows', pending))))\<rparr>"


text \<open>
  A generator that returns the given identifiers in turn and then a row of \<open>z\<close>.
\<close>

definition idsInTurn :: "string list \<Rightarrow> nat \<Rightarrow> nat \<Rightarrow> string" where
  "idsInTurn ids n len = (if n < length ids then ids ! n else replicate len CHR ''z'')"

definition twoRows :: "Url list" where
  "twoRows =
     [\<lparr>shortId = ''aaaaaaaa'', originalUrl = ''http://a.example/''\<rparr>,
      \<lparr>shortId = ''bbbbbbbb'', originalUrl = ''http://b.example/''\<rparr>]"

definition oneLinkDoc :: "node list" where
  "oneLinkDoc = [Element ''a'' [(''href'', ''https://example.com'')] [Text ''here'']]"

definition raceRow :: Url where
  "raceRow = \<lparr>shortId = ''aaaaaaaa'', originalUrl = ''https://example.com''\<rparr>"

definition threeLinkDoc :: "node list" where
  "threeLinkDoc =
     [Element ''p'' []
        [Element ''a'' [(''href'', ''https://example.com'')] [Text ''one''],
         Element ''img'' [(''src'', ''https://img.example.com/a.png'')] [],
         Element ''a'' [(''href'', ''https://example.com''), (''class'', ''x'')] [Text ''two''],
         Element ''a'' [(''href'', ''mailto:bob@example.com'')] [Text ''mail'']]]"

definition exampleRow :: Url where
  "exampleRow = \<lparr>shortId = ''cccccccc'', originalUrl = ''https://example.com''\<rparr>"

section \<open>Runs of cache operations\<close>

text \<open>
  The keys of a run of \<^verbatim>\<open>cacheSet\<close> calls, and the entry each call writes: the value
  with the expiry \<^verbatim>\<open>Date.now() + ttl\<close> of its kind.
\<close>

definition keysOf :: "(int \<times> string \<times> string option) list \<Rightarrow> string list" where
  "keysOf ops = map (\<lambda>(now, key, v). key) ops"

definition entryOf :: "cache_config \<Rightarrow> int \<times> string \<times> string option \<Rightarrow> string \<times> CacheEntry" where
  "entryOf cfg op = (case op of (now, key, v) \<Rightarrow>
     (key, \<lparr>entryValue = v, expiresAt = now + (if v = None then CACHE_404_TTL_MS cfg else CACHE_TTL_MS cfg)\<rparr>))"

text \<open>The default time-to-live values with a cache of the given size.\<close>

definition configOfSize :: "int \<Rightarrow> cache_config" where
  "configOfSize c = \<lparr>CACHE_MAX_ENTRIES = c, CACHE_TTL_MS = 300000, CACHE_404_TTL_MS = 30000\<rparr>"

text \<open>An identifier has a live entry: one whose expiry is after the clock reading.\<close>

definition live :: "int \<Rightarrow> string \<Rightarrow> redirect_cache \<Rightarrow> bool" where
  "live now1 ident rc = (case jsmap_get ident rc of None \<Rightarrow> False | Some e \<Rightarrow> now1 < expiresAt e)"

section \<open>Facts about maps\<close>

lemma jsmap_keys_set:
  "jsmap_keys (jsmap_set k v m) = (if k \<in> set (jsmap_keys m) then jsmap_keys m else jsmap_keys m @ [k])"
  by (induction m) (force simp: jsmap_keys_def)+

lemma jsmap_keys_delete: "jsmap_keys (jsmap_delete k m) = removeAll k (jsmap_keys m)"
  by (induction m) (auto simp: jsmap_keys_def)

lemma jsmap_get_None: "jsmap_get k m = None \<longleftrightarrow> k \<notin> set (jsmap_keys m)"
  by (induction m) (force simp: jsmap_keys_def)+

lemma jsmap_get_set: "jsmap_get k (jsmap_set k' v m) = (if k = k' then Some v else jsmap_get k m)"
  by (induction m) auto

lemma jsmap_get_delete:
  "jsmap_get k (jsmap_delete k' m) = (if k = k' then None else jsmap_get k m)"
  by (induction m) auto

lemma jsmap_set_fresh: "k \<notin> set (jsmap_keys m) \<Longrightarrow> jsmap_set k v m = m @ [(k, v)]"
  by (induction m) (auto simp: jsmap_keys_def)

lemma jsmap_delete_absent: "k \<notin> set (jsmap_keys m) \<Longrightarrow> jsmap_delete k m = m"
  by (induction m) (auto simp: jsmap_keys_def)

lemma jsmap_delete_filter: "jsmap_delete k m = filter (\<lambda>p. fst p \<noteq> k) m"
  by (induction m) auto

lemma jsmap_delete_hd: "distinct (jsmap_keys m) \<Longrightarrow> m = (k, v) # m' \<Longrightarrow> jsmap_delete k m = m'"
  by (auto simp: jsmap_keys_def jsmap_delete_absent)

lemma length_jsmap_set: "length (jsmap_set k v m) = (if k \<in> set (jsmap_keys m) then length m else Suc (length m))"
  by (induction m) (force simp: jsmap_keys_def)+

lemma length_jsmap_delete_le: "length (jsmap_delete k m) \<le> length m"
  by (induction m) auto

lemma length_jsmap_delete_hd: "length (jsmap_delete k ((k, v) # m)) \<le> length m"
  by (simp add: length_jsmap_delete_le)

lemma cacheSet_bound:
  assumes "CACHE_MAX_ENTRIES cfg = int C" "length rc \<le> C"
  shows "length (cacheSet cfg now key v rc) \<le> C"
proof -
  let ?rc = "jsmap_set key \<lparr>entryValue = v, expiresAt = now + (if v = None then CACHE_404_TTL_MS cfg else CACHE_TTL_MS cfg)\<rparr> rc"
  have l: "length ?rc \<le> Suc (length rc)" by (simp add: length_jsmap_set)
  show ?thesis
  proof (cases ?rc)
    case Nil
    then show ?thesis using assms by (simp add: cacheSet_def Let_def)
  next
    case (Cons p m)
    obtain k e where p: "p = (k, e)" by (cases p)
    have "length (jsmap_delete k ?rc) \<le> length m"
      unfolding Cons p by (rule length_jsmap_delete_hd)
    moreover have "length m \<le> length rc" using l Cons by simp
    ultimately show ?thesis using assms Cons p
      by (auto simp: cacheSet_def Let_def)
  qed
qed

lemma cacheSets_bound:
  "CACHE_MAX_ENTRIES cfg = int C \<Longrightarrow> length rc \<le> C \<Longrightarrow> length (cacheSets cfg ops rc) \<le> C"
  by (induction ops arbitrary: rc) (auto simp: cacheSet_bound)

lemma cacheSets_append: "cacheSets cfg (xs @ ys) rc = cacheSets cfg ys (cacheSets cfg xs rc)"
  by (induction xs arbitrary: rc) auto

lemma cacheSet_room:
  assumes "CACHE_MAX_ENTRIES cfg = int C" "length rc < C" "key \<notin> set (jsmap_keys rc)"
  shows "cacheSet cfg now key v rc = rc @ [entryOf cfg (now, key, v)]"
  using assms by (simp add: cacheSet_def Let_def jsmap_set_fresh entryOf_def)

lemma cacheSets_room:
  "CACHE_MAX_ENTRIES cfg = int C \<Longrightarrow> length rc + length ops \<le> C
   \<Longrightarrow> distinct (jsmap_keys rc @ keysOf ops)
   \<Longrightarrow> cacheSets cfg ops rc = rc @ map (entryOf cfg) ops"
proof (induction ops arbitrary: rc)
  case Nil
  then show ?case by simp
next
  case (Cons op ops)
  obtain now key v where op: "op = (now, key, v)" by (cases op)
  have s: "cacheSet cfg now key v rc = rc @ [entryOf cfg op]"
    unfolding op by (rule cacheSet_room[where C=C]) (use Cons.prems op in \<open>auto simp: keysOf_def\<close>)
  have "cacheSets cfg ops (rc @ [entryOf cfg op]) = (rc @ [entryOf cfg op]) @ map (entryOf cfg) ops"
    using Cons.prems op by (intro Cons.IH) (auto simp: keysOf_def jsmap_keys_def entryOf_def)
  then show ?case using s op by simp
qed

lemma cacheSet_full:
  assumes "CACHE_MAX_ENTRIES cfg = int C" "length rc = C" "key \<notin> set (jsmap_keys rc)"
    "distinct (jsmap_keys rc)"
  shows "cacheSet cfg now key v rc = tl (rc @ [entryOf cfg (now, key, v)])"
proof -
  let ?rc = "rc @ [entryOf cfg (now, key, v)]"
  have d: "distinct (jsmap_keys ?rc)" using assms by (auto simp: jsmap_keys_def entryOf_def)
  obtain k e m where m: "?rc = (k, e) # m" by (cases ?rc) auto
  have "jsmap_delete k ?rc = m" using d m by (rule jsmap_delete_hd)
  then show ?thesis using assms m
    by (simp add: cacheSet_def Let_def jsmap_set_fresh entryOf_def)
qed

lemma jsmap_keys_entries: "jsmap_keys (map (entryOf cfg) ops) = keysOf ops"
  by (induction ops) (auto simp: jsmap_keys_def keysOf_def entryOf_def)

lemma jsmap_keys_append: "jsmap_keys (m @ m') = jsmap_keys m @ jsmap_keys m'"
  by (simp add: jsmap_keys_def)

lemma jsmap_keys_tl: "jsmap_keys (tl m) = tl (jsmap_keys m)"
  by (simp add: jsmap_keys_def map_tl)

lemma cacheGet_hit:
  assumes "cacheGet cfg now1 now2 key rc = (Some v, rc')"
  shows "\<exists>e. jsmap_get key rc = Some e \<and> now1 < expiresAt e \<and> v = entryValue e
           \<and> rc' = jsmap_delete key rc @
                 [(key, \<lparr>entryValue = v,
                     expiresAt = now2 + (if v = None then CACHE_404_TTL_MS cfg else CACHE_TTL_MS cfg)\<rparr>)]"
  using assms
  by (auto simp: cacheGet_def Let_def jsmap_set_fresh jsmap_keys_delete
           split: option.splits if_splits)

lemma length_removeAll_distinct:
  "distinct xs \<Longrightarrow> x \<in> set xs \<Longrightarrow> Suc (length (removeAll x xs)) = length xs"
  by (induction xs) auto

lemma lru_room:
  assumes cap: "CACHE_MAX_ENTRIES cfg = int C"
    and len: "length rc + length ops = Suc C"
    and ne: "ops \<noteq> []"
    and dist: "distinct (jsmap_keys rc @ keysOf ops)"
  shows "cacheSets cfg ops rc = tl (rc @ map (entryOf cfg) ops)"
proof -
  obtain ops' op where ops: "ops = ops' @ [op]"
    using ne by (metis rev_exhaust)
  obtain now key v where op: "op = (now, key, v)" by (cases op)
  have l: "length rc + length ops' \<le> C" using len ops by simp
  have d: "distinct (jsmap_keys rc @ keysOf ops')" using dist ops by (simp add: keysOf_def)
  have a: "cacheSets cfg ops' rc = rc @ map (entryOf cfg) ops'"
    using cap l d by (rule cacheSets_room)
  have "cacheSet cfg now key v (rc @ map (entryOf cfg) ops')
          = tl ((rc @ map (entryOf cfg) ops') @ [entryOf cfg (now, key, v)])"
  proof (rule cacheSet_full[OF cap])
    show "length (rc @ map (entryOf cfg) ops') = C" using len ops by simp
    show "key \<notin> set (jsmap_keys (rc @ map (entryOf cfg) ops'))"
      using dist ops op by (auto simp: jsmap_keys_append jsmap_keys_entries keysOf_def)
    show "distinct (jsmap_keys (rc @ map (entryOf cfg) ops'))"
      using d by (simp add: jsmap_keys_append jsmap_keys_entries)
  qed
  then show ?thesis using a ops op by (simp add: cacheSets_append)
qed

section \<open>Claims about the redirect cache\<close>

text \<open>
  C5 (as amended). With capacity \<open>C\<close> and an empty cache, a run of \<open>C + 1\<close>
  \<^verbatim>\<open>cacheSet\<close> calls on distinct keys, here \<open>ops1 @ ops2\<close>, with no \<^verbatim>\<open>cacheGet\<close>
  between them leaves exactly the entries of all calls but the first, in the order of the
  calls, and after every call of the run the cache holds at most \<open>C\<close> entries. When a
  \<^verbatim>\<open>cacheGet\<close> on a key \<open>k\<close> succeeds between the calls \<open>ops1\<close> and the calls
  \<open>ops2\<close>, at a moment when the cache holds at least one other entry
  (\<open>2 \<le> length ops1\<close>), the last call of the run evicts the oldest other key and \<open>k\<close>
  stays in the cache.
\<close>

theorem lru_eviction:
  assumes cap: "CACHE_MAX_ENTRIES cfg = int C"
    and len: "length (ops1 @ ops2) = Suc C"
    and dist: "distinct (keysOf (ops1 @ ops2))"
  shows "cacheSets cfg (ops1 @ ops2) [] = tl (map (entryOf cfg) (ops1 @ ops2))
     \<and> (\<forall>n. length (cacheSets cfg (take n (ops1 @ ops2)) []) \<le> C)
     \<and> (ops2 \<noteq> [] \<and> 2 \<le> length ops1 \<and> k \<in> set (keysOf ops1)
          \<and> cacheGet cfg now1 now2 k (cacheSets cfg ops1 []) = (Some v, rc)
        \<longrightarrow> k \<in> set (jsmap_keys (cacheSets cfg ops2 rc))
          \<and> jsmap_keys (cacheSets cfg ops2 rc) = tl (removeAll k (keysOf ops1) @ k # keysOf ops2))"
proof (intro conjI allI impI)
  have "ops1 @ ops2 \<noteq> []" using len by auto
  then show "cacheSets cfg (ops1 @ ops2) [] = tl (map (entryOf cfg) (ops1 @ ops2))"
    using lru_room[OF cap, of "[]" "ops1 @ ops2"] len dist by (simp add: jsmap_keys_def)
next
  fix n show "length (cacheSets cfg (take n (ops1 @ ops2)) []) \<le> C"
    using cap by (rule cacheSets_bound) simp
next
  assume h: "ops2 \<noteq> [] \<and> 2 \<le> length ops1 \<and> k \<in> set (keysOf ops1)
          \<and> cacheGet cfg now1 now2 k (cacheSets cfg ops1 []) = (Some v, rc)"
  have d1: "distinct (keysOf ops1)" using dist by (simp add: keysOf_def)
  have "length ops1 \<le> C" using len h by (cases ops2) auto
  then have r1: "cacheSets cfg ops1 [] = map (entryOf cfg) ops1"
    using cacheSets_room[OF cap, of "[]" ops1] d1 by (simp add: jsmap_keys_def)
  obtain e where rc: "rc = jsmap_delete k (map (entryOf cfg) ops1) @ [(k, e)]"
    using h cacheGet_hit[of cfg now1 now2 k "cacheSets cfg ops1 []" v rc] r1 by auto
  have keys: "jsmap_keys rc = removeAll k (keysOf ops1) @ [k]"
    by (simp add: rc jsmap_keys_append jsmap_keys_delete jsmap_keys_entries) (simp add: jsmap_keys_def)
  have "length (jsmap_keys rc) = length (keysOf ops1)"
    using length_removeAll_distinct[OF d1, of k] h by (simp add: keys)
  then have lrc: "length rc = length ops1"
    by (simp add: jsmap_keys_def keysOf_def)
  have "cacheSets cfg ops2 rc = tl (rc @ map (entryOf cfg) ops2)"
  proof (rule lru_room[OF cap])
    show "length rc + length ops2 = Suc C" using lrc len by simp
    show "ops2 \<noteq> []" using h by simp
    have "distinct (keysOf ops1 @ keysOf ops2)" using dist by (simp add: keysOf_def)
    then show "distinct (jsmap_keys rc @ keysOf ops2)"
      using h by (auto simp: keys distinct_removeAll)
  qed
  then have k2: "jsmap_keys (cacheSets cfg ops2 rc) = tl (removeAll k (keysOf ops1) @ k # keysOf ops2)"
    by (simp add: jsmap_keys_tl jsmap_keys_append jsmap_keys_entries keys)
  have "removeAll k (keysOf ops1) \<noteq> []"
    using length_removeAll_distinct[OF d1, of k] h by (auto simp: keysOf_def)
  then have "k \<in> set (tl (removeAll k (keysOf ops1) @ k # keysOf ops2))"
    by (cases "removeAll k (keysOf ops1)") auto
  then show "k \<in> set (jsmap_keys (cacheSets cfg ops2 rc))" using k2 by simp
  show "jsmap_keys (cacheSets cfg ops2 rc) = tl (removeAll k (keysOf ops1) @ k # keysOf ops2)"
    by (rule k2)
qed

theorem lru_eviction_witness:
  "cacheSets (configOfSize 2) ([(0, ''a'', Some ''u''), (1, ''b'', None)] @ [(3, ''c'', Some ''w'')]) []
     = [(''b'', \<lparr>entryValue = None, expiresAt = 30001\<rparr>),
        (''c'', \<lparr>entryValue = Some ''w'', expiresAt = 300003\<rparr>)]
   \<and> length (cacheSets (configOfSize 2)
         (take 3 ([(0, ''a'', Some ''u''), (1, ''b'', None)] @ [(3, ''c'', Some ''w'')])) []) \<le> 2
   \<and> cacheGet (configOfSize 2) 2 2 ''a'' (cacheSets (configOfSize 2) [(0, ''a'', Some ''u''), (1, ''b'', None)] [])
     = (Some (Some ''u''),
        [(''b'', \<lparr>entryValue = None, expiresAt = 30001\<rparr>),
         (''a'', \<lparr>entryValue = Some ''u'', expiresAt = 300002\<rparr>)])
   \<and> jsmap_keys (cacheSets (configOfSize 2) [(3, ''c'', Some ''w'')]
        [(''b'', \<lparr>entryValue = None, expiresAt = 30001\<rparr>),
         (''a'', \<lparr>entryValue = Some ''u'', expiresAt = 300002\<rparr>)]) = [''a'', ''c'']"
proof -
  let ?cfg = "configOfSize 2"
  let ?ops1 = "[(0, ''a'', Some ''u''), (1, ''b'', None)] :: (int \<times> string \<times> string option) list"
  let ?ops2 = "[(3, ''c'', Some ''w'')] :: (int \<times> string \<times> string option) list"
  let ?rc = "[(''b'', \<lparr>entryValue = None, expiresAt = 30001\<rparr>),
         (''a'', \<lparr>entryValue = Some ''u'', expiresAt = 300002\<rparr>)]"
  have cap: "CACHE_MAX_ENTRIES ?cfg = int 2" by (simp add: configOfSize_def)
  have len: "length (?ops1 @ ?ops2) = Suc 2" by simp
  have dist: "distinct (keysOf (?ops1 @ ?ops2))" by (simp add: keysOf_def)
  have get: "cacheGet ?cfg 2 2 ''a'' (cacheSets ?cfg ?ops1 []) = (Some (Some ''u''), ?rc)"
    by (simp add: cacheGet_def cacheSet_def configOfSize_def Let_def)
  have pre: "?ops2 \<noteq> [] \<and> 2 \<le> length ?ops1 \<and> ''a'' \<in> set (keysOf ?ops1)
        \<and> cacheGet ?cfg 2 2 ''a'' (cacheSets ?cfg ?ops1 []) = (Some (Some ''u''), ?rc)"
    using get by (simp add: keysOf_def)
  show ?thesis
    using lru_eviction[OF cap len dist, of "''a''" 2 2 "Some ''u''" ?rc] pre get
    by (simp add: entryOf_def configOfSize_def keysOf_def)
qed

text \<open>
  C5 as stated fails where the key that is read is the only entry: with capacity 1,
  \<^verbatim>\<open>cacheSet\<close> of \<open>a\<close>, a successful \<^verbatim>\<open>cacheGet\<close> of \<open>a\<close>, and the second
  \<^verbatim>\<open>cacheSet\<close>, of \<open>b\<close>, evicts \<open>a\<close>.
\<close>

theorem lru_single_entry_counterexample:
  "cacheGet (configOfSize 1) 1 1 ''a'' (cacheSets (configOfSize 1) [(0, ''a'', Some ''u'')] [])
     = (Some (Some ''u''), [(''a'', \<lparr>entryValue = Some ''u'', expiresAt = 300001\<rparr>)])
   \<and> cacheSets (configOfSize 1) [(2, ''b'', Some ''w'')]
        [(''a'', \<lparr>entryValue = Some ''u'', expiresAt = 300001\<rparr>)]
     = [(''b'', \<lparr>entryValue = Some ''w'', expiresAt = 300002\<rparr>)]"
  by (simp add: cacheGet_def cacheSet_def configOfSize_def Let_def)

text \<open>
  C6. For a key present in the cache with entry \<open>entry\<close>: when the expiry is not after
  the clock reading \<open>now1\<close>, \<^verbatim>\<open>cacheGet\<close> answers a miss and the key is gone from the
  cache, all other entries staying as they are; when the entry is live, \<^verbatim>\<open>cacheGet\<close>
  answers its value, and the entry is now the last of the iteration order (the most
  recently used) with the same value and the expiry \<open>now2\<close> plus the time-to-live of its
  kind: \<^verbatim>\<open>CACHE_404_TTL_MS\<close> for a cached 404, \<^verbatim>\<open>CACHE_TTL_MS\<close> for an address.
\<close>

theorem cacheGet_expired_or_live:
  assumes "jsmap_get key rc = Some entry"
  shows "(expiresAt entry \<le> now1 \<longrightarrow>
            cacheGet cfg now1 now2 key rc = (None, jsmap_delete key rc)
            \<and> jsmap_get key (jsmap_delete key rc) = None)
       \<and> (now1 < expiresAt entry \<longrightarrow>
            cacheGet cfg now1 now2 key rc =
              (Some (entryValue entry),
               jsmap_delete key rc @
                 [(key, \<lparr>entryValue = entryValue entry,
                     expiresAt = now2 + (if entryValue entry = None then CACHE_404_TTL_MS cfg
                                         else CACHE_TTL_MS cfg)\<rparr>)]))"
  using assms
  by (simp add: cacheGet_def Let_def jsmap_get_delete jsmap_set_fresh jsmap_keys_delete)

theorem cacheGet_expired_or_live_witness:
  "cacheGet default_config 5 6 ''a''
      [(''a'', \<lparr>entryValue = Some ''u'', expiresAt = 5\<rparr>), (''b'', \<lparr>entryValue = None, expiresAt = 9\<rparr>)]
     = (None, [(''b'', \<lparr>entryValue = None, expiresAt = 9\<rparr>)])
   \<and> cacheGet default_config 7 8 ''a''
      [(''a'', \<lparr>entryValue = Some ''u'', expiresAt = 9\<rparr>), (''b'', \<lparr>entryValue = None, expiresAt = 9\<rparr>)]
     = (Some (Some ''u''),
        [(''b'', \<lparr>entryValue = None, expiresAt = 9\<rparr>), (''a'', \<lparr>entryValue = Some ''u'', expiresAt = 300008\<rparr>)])
   \<and> cacheGet default_config 7 8 ''b''
      [(''b'', \<lparr>entryValue = None, expiresAt = 9\<rparr>), (''a'', \<lparr>entryValue = Some ''u'', expiresAt = 9\<rparr>)]
     = (Some None,
        [(''a'', \<lparr>entryValue = Some ''u'', expiresAt = 9\<rparr>), (''b'', \<lparr>entryValue = None, expiresAt = 30008\<rparr>)])"
proof -
  let ?a5 = "\<lparr>entryValue = Some ''u'', expiresAt = 5\<rparr>"
  let ?a9 = "\<lparr>entryValue = Some ''u'', expiresAt = 9\<rparr>"
  let ?b9 = "\<lparr>entryValue = None :: string option, expiresAt = 9\<rparr>"
  have g1: "jsmap_get ''a'' [(''a'', ?a5), (''b'', ?b9)] = Some ?a5" by simp
  have g2: "jsmap_get ''a'' [(''a'', ?a9), (''b'', ?b9)] = Some ?a9" by simp
  have g3: "jsmap_get ''b'' [(''b'', ?b9), (''a'', ?a9)] = Some ?b9" by simp
  show ?thesis
    using cacheGet_expired_or_live[OF g1, of 5 default_config 6]
      cacheGet_expired_or_live[OF g2, of 7 default_config 8]
      cacheGet_expired_or_live[OF g3, of 7 default_config 8]
    by (simp add: default_config_def)
qed

text \<open>
  C7 (the code departs from it). \<^verbatim>\<open>cacheSet\<close> on a key that is present writes the
  value and the expiry but leaves the key at its place in the iteration order: here \<open>a\<close>
  stays the oldest key of a cache of capacity 2, before \<open>b\<close>, and the next
  \<^verbatim>\<open>cacheSet\<close> of a new key evicts \<open>a\<close>, the entry written last, and keeps \<open>b\<close>.
\<close>

theorem cacheSet_present_key_keeps_position:
  "cacheSet (configOfSize 2) 100 ''a'' (Some ''v'')
      [(''a'', \<lparr>entryValue = Some ''u'', expiresAt = 50\<rparr>), (''b'', \<lparr>entryValue = None, expiresAt = 60\<rparr>)]
     = [(''a'', \<lparr>entryValue = Some ''v'', expiresAt = 300100\<rparr>), (''b'', \<lparr>entryValue = None, expiresAt = 60\<rparr>)]
   \<and> cacheSet (configOfSize 2) 101 ''c'' (Some ''w'')
      [(''a'', \<lparr>entryValue = Some ''v'', expiresAt = 300100\<rparr>), (''b'', \<lparr>entryValue = None, expiresAt = 60\<rparr>)]
     = [(''b'', \<lparr>entryValue = None, expiresAt = 60\<rparr>), (''c'', \<lparr>entryValue = Some ''w'', expiresAt = 300101\<rparr>)]"
  by (simp add: cacheSet_def configOfSize_def Let_def)

section \<open>Facts about strings\<close>

lemma startsWith_Nil: "startsWith [] p = (p = [])"
  by (auto simp: startsWith_def)

lemma startsWith_Cons: "startsWith (c # s) (d # p) = (c = d \<and> startsWith s p)"
  by (auto simp: startsWith_def)

lemma startsWith_append: "startsWith (p @ r) p"
  by (simp add: startsWith_def)

lemma startsWith_hd: "startsWith s (d # p) \<Longrightarrow> s \<noteq> [] \<and> hd s = d"
  by (cases s) (auto simp: startsWith_def)

lemma trim_Nil: "trim [] = []"
  by (simp add: trim_def)

lemma toLowerCase_Nil: "toLowerCase [] = []"
  by (simp add: toLowerCase_def)

lemma trim_keeps_prefix:
  assumes "p \<noteq> []" "\<not> isWhiteSpace (hd p)" "\<not> isWhiteSpace (last p)"
  shows "\<exists>r'. trim (p @ r) = p @ r'"
proof -
  obtain a p' where p: "p = a # p'" using assms(1) by (cases p) auto
  have 1: "dropWhile isWhiteSpace (p @ r) = p @ r" using assms(2) p by simp
  have 2: "dropWhile isWhiteSpace (rev p) = rev p"
    using assms(1,3) by (cases "rev p") (auto simp: last_rev[symmetric] simp del: last_rev)
  have "\<exists>x. dropWhile isWhiteSpace (rev r @ rev p) = x @ rev p"
    using 2 by (auto simp: dropWhile_append)
  then obtain x where "dropWhile isWhiteSpace (rev (p @ r)) = x @ rev p" by auto
  then show ?thesis by (simp add: trim_def 1)
qed

lemma toLowerCase_append: "toLowerCase (p @ r) = toLowerCase p @ toLowerCase r"
  by (simp add: toLowerCase_def)

lemma raw_prefix:
  assumes "startsWith v p" "p \<noteq> []" "\<not> isWhiteSpace (hd p)" "\<not> isWhiteSpace (last p)"
    "toLowerCase p = p"
  shows "startsWith (toLowerCase (trim v)) p"
proof -
  have "v = p @ drop (length p) v" using assms(1) by (metis append_take_drop_id startsWith_def)
  then obtain r' where "trim v = p @ r'" using trim_keeps_prefix[OF assms(2-4)] by metis
  then show ?thesis using assms(5) by (simp add: toLowerCase_append startsWith_append)
qed

lemma isShortenable_Some:
  "isShortenable (Some v) =
     (startsWith (toLowerCase (trim v)) ''http://'' \<or> startsWith (toLowerCase (trim v)) ''https://'')"
proof (cases "v = []")
  case True
  then show ?thesis
    by (simp add: isShortenable_def trim_Nil toLowerCase_Nil startsWith_Nil)
next
  case False
  have "\<not> (startsWith l (CHR ''h'' # p) \<and> startsWith l (c # q))" if "c \<noteq> CHR ''h''" for l p c q
    using that startsWith_hd[of l "CHR ''h''" p] startsWith_hd[of l c q] by auto
  then show ?thesis using False
    by (auto simp: isShortenable_def Let_def)
qed

lemma excluded_prefix:
  assumes "p \<in> {''mailto:'', ''tel:'', ''javascript:'', ''#''}"
    and "startsWith (toLowerCase (trim v)) p"
  shows "\<not> isShortenable (Some v)"
proof (cases "v = []")
  case True
  then show ?thesis by (simp add: isShortenable_def)
next
  case False
  then show ?thesis using assms by (auto simp: isShortenable_def Let_def)
qed

lemma excluded_raw_prefix:
  assumes "p \<in> {''mailto:'', ''tel:'', ''javascript:'', ''#''}" and "startsWith v p"
  shows "startsWith (toLowerCase (trim v)) p"
proof -
  have "p \<noteq> [] \<and> \<not> isWhiteSpace (hd p) \<and> \<not> isWhiteSpace (last p) \<and> toLowerCase p = p"
    using assms(1) by (elim insertE emptyE; hypsubst; code_simp)
  then show ?thesis using assms(2) by (simp add: raw_prefix)
qed

section \<open>Claims about the values that are shortened\<close>

text \<open>
  C4. An attribute value, possibly absent, is shortenable exactly when it is present and,
  trimmed and lowercased, begins with \<^verbatim>\<open>http://\<close> or \<^verbatim>\<open>https://\<close>. An absent
  value and the empty value are not shortenable, and no value is that begins with
  \<^verbatim>\<open>mailto:\<close>, \<^verbatim>\<open>tel:\<close>, \<^verbatim>\<open>javascript:\<close> or \<^verbatim>\<open>#\<close>, as it stands or
  once trimmed and lowercased. Every other scheme falls under the first sentence.
\<close>

theorem isShortenable_http_only:
  "isShortenable href =
     (case href of
        None \<Rightarrow> False
      | Some v \<Rightarrow> startsWith (toLowerCase (trim v)) ''http://''
                 \<or> startsWith (toLowerCase (trim v)) ''https://'')
   \<and> \<not> isShortenable None \<and> \<not> isShortenable (Some [])
   \<and> (p \<in> {''mailto:'', ''tel:'', ''javascript:'', ''#''}
        \<and> (startsWith v p \<or> startsWith (toLowerCase (trim v)) p)
      \<longrightarrow> \<not> isShortenable (Some v))"
proof (intro conjI impI)
  show "isShortenable href =
     (case href of
        None \<Rightarrow> False
      | Some v \<Rightarrow> startsWith (toLowerCase (trim v)) ''http://''
                 \<or> startsWith (toLowerCase (trim v)) ''https://'')"
    by (cases href) (simp_all add: isShortenable_Some, simp add: isShortenable_def)
  show "\<not> isShortenable None" by (simp add: isShortenable_def)
  show "\<not> isShortenable (Some [])" by (simp add: isShortenable_def)
  assume "p \<in> {''mailto:'', ''tel:'', ''javascript:'', ''#''}
        \<and> (startsWith v p \<or> startsWith (toLowerCase (trim v)) p)"
  then show "\<not> isShortenable (Some v)"
    using excluded_prefix[of p v] excluded_raw_prefix[of p v] by blast
qed

theorem isShortenable_http_only_witness:
  "isShortenable (Some '' HTTPS://Example.com/a '')
   \<and> isShortenable (Some ''http://example.com'')
   \<and> \<not> isShortenable (Some ''ftp://example.com/a'')
   \<and> \<not> isShortenable (Some ''/relative/path'')
   \<and> startsWith (toLowerCase (trim '' MailTo:bob@example.com'')) ''mailto:''
   \<and> \<not> isShortenable (Some '' MailTo:bob@example.com'')
   \<and> startsWith ''#top'' ''#''
   \<and> \<not> isShortenable (Some ''#top'')"
proof -
  have m: "''mailto:'' \<in> {''mailto:'', ''tel:'', ''javascript:'', ''#''}" by simp
  have h: "''#'' \<in> {''mailto:'', ''tel:'', ''javascript:'', ''#''}" by simp
  have 1: "startsWith (toLowerCase (trim '' MailTo:bob@example.com'')) ''mailto:''" by code_simp
  have 2: "startsWith ''#top'' ''#''" by code_simp
  have 3: "startsWith (toLowerCase (trim '' HTTPS://Example.com/a '')) ''https://''" by code_simp
  have 4: "startsWith (toLowerCase (trim ''http://example.com'')) ''http://''" by code_simp
  have 5: "\<not> startsWith (toLowerCase (trim ''ftp://example.com/a'')) ''http://''
         \<and> \<not> startsWith (toLowerCase (trim ''ftp://example.com/a'')) ''https://''" by code_simp
  have 6: "\<not> startsWith (toLowerCase (trim ''/relative/path'')) ''http://''
         \<and> \<not> startsWith (toLowerCase (trim ''/relative/path'')) ''https://''" by code_simp
  show ?thesis
    using isShortenable_http_only[of "Some '' HTTPS://Example.com/a ''" "''#''" "''#top''"]
      isShortenable_http_only[of "Some ''http://example.com''" "''mailto:''" "'' MailTo:bob@example.com''"]
      isShortenable_http_only[of "Some ''ftp://example.com/a''"]
      isShortenable_http_only[of "Some ''/relative/path''"]
      m h 1 2 3 4 5 6
    by simp
qed

section \<open>Facts about the allocator\<close>

lemma loop_exhausted:
  "\<not> attempt < maxAttempts \<Longrightarrow>
   createUrlLoop P nanoid url len maxAttempts attempt lastError (d, n) =
     (Inl (case lastError of Some e \<Rightarrow> e
           | None \<Rightarrow> Error ''Failed to generate a unique shortId after multiple attempts''), (d, n))"
  by (subst createUrlLoop.simps) simp

lemma loop_created:
  "attempt < maxAttempts \<Longrightarrow> create P (nanoid n len) url d = (Inr row, d') \<Longrightarrow>
   createUrlLoop P nanoid url len maxAttempts attempt lastError (d, n) =
     (Inr (nanoid n len), (d', Suc n))"
  by (subst createUrlLoop.simps) simp

lemma loop_retry:
  "attempt < maxAttempts \<Longrightarrow>
   create P (nanoid n len) url d = (Inl (PrismaClientKnownRequestError ''P2002'' target), d') \<Longrightarrow>
   targets_of target = [] \<or> ''shortId'' \<in> set (targets_of target) \<Longrightarrow>
   createUrlLoop P nanoid url len maxAttempts attempt lastError (d, n) =
     createUrlLoop P nanoid url len maxAttempts (Suc attempt)
       (Some (PrismaClientKnownRequestError ''P2002'' target)) (d', Suc n)"
  by (subst createUrlLoop.simps) auto

lemma loop_rethrow:
  "attempt < maxAttempts \<Longrightarrow> create P (nanoid n len) url d = (Inl e, d') \<Longrightarrow>
   (\<forall>target. e = PrismaClientKnownRequestError ''P2002'' target \<longrightarrow>
      targets_of target \<noteq> [] \<and> ''shortId'' \<notin> set (targets_of target)) \<Longrightarrow>
   createUrlLoop P nanoid url len maxAttempts attempt lastError (d, n) = (Inl e, (d', Suc n))"
  by (subst createUrlLoop.simps) (auto split: error.splits)

lemma loop_collisions:
  assumes "\<forall>i<k. \<exists>t. create P (nanoid (n + i) len) url d
                    = (Inl (PrismaClientKnownRequestError ''P2002'' t), d)
                  \<and> ''shortId'' \<in> set (targets_of t)"
    and "attempt + k \<le> maxAttempts"
  shows "\<exists>lastError'.
           createUrlLoop P nanoid url len maxAttempts attempt lastError (d, n) =
             createUrlLoop P nanoid url len maxAttempts (attempt + k) lastError' (d, n + k)
           \<and> (k = 0 \<longrightarrow> lastError' = lastError)
           \<and> (0 < k \<longrightarrow> (\<exists>t. lastError' = Some (PrismaClientKnownRequestError ''P2002'' t)
                             \<and> ''shortId'' \<in> set (targets_of t)))"
  using assms
proof (induction k arbitrary: n attempt lastError)
  case 0
  then show ?case by simp
next
  case (Suc k)
  from Suc.prems(1) obtain t where
    t: "create P (nanoid n len) url d = (Inl (PrismaClientKnownRequestError ''P2002'' t), d)"
       "''shortId'' \<in> set (targets_of t)"
    by force
  have step: "createUrlLoop P nanoid url len maxAttempts attempt lastError (d, n) =
     createUrlLoop P nanoid url len maxAttempts (Suc attempt)
       (Some (PrismaClientKnownRequestError ''P2002'' t)) (d, Suc n)"
    using Suc.prems(2) t by (intro loop_retry) auto
  have "\<forall>i<k. \<exists>t. create P (nanoid (Suc n + i) len) url d
                    = (Inl (PrismaClientKnownRequestError ''P2002'' t), d)
                  \<and> ''shortId'' \<in> set (targets_of t)"
    using Suc.prems(1) by (metis Suc_less_eq add_Suc_shift)
  moreover have "Suc attempt + k \<le> maxAttempts" using Suc.prems(2) by simp
  ultimately obtain le' where
    le': "createUrlLoop P nanoid url len maxAttempts (Suc attempt)
            (Some (PrismaClientKnownRequestError ''P2002'' t)) (d, Suc n) =
          createUrlLoop P nanoid url len maxAttempts (Suc attempt + k) le' (d, Suc n + k)"
       "k = 0 \<longrightarrow> le' = Some (PrismaClientKnownRequestError ''P2002'' t)"
       "0 < k \<longrightarrow> (\<exists>t. le' = Some (PrismaClientKnownRequestError ''P2002'' t)
                             \<and> ''shortId'' \<in> set (targets_of t))"
    using Suc.IH[of "Suc n" "Suc attempt" "Some (PrismaClientKnownRequestError ''P2002'' t)"]
    by blast
  show ?case
  proof (intro exI[of _ le'] conjI impI)
    show "createUrlLoop P nanoid url len maxAttempts attempt lastError (d, n) =
      createUrlLoop P nanoid url len maxAttempts (attempt + Suc k) le' (d, n + Suc k)"
      using step le'(1) by simp
    show "\<exists>t. le' = Some (PrismaClientKnownRequestError ''P2002'' t) \<and> ''shortId'' \<in> set (targets_of t)"
      using le'(2,3) t(2) by (cases "k = 0") auto
  qed simp
qed

lemma resolveUrls_append:
  "resolveUrls P nanoid B (us1 @ us2) cache s =
     (case resolveUrls P nanoid B us1 cache s of
        (Inl e, s') \<Rightarrow> (Inl e, s')
      | (Inr cache', s') \<Rightarrow> resolveUrls P nanoid B us2 cache' s')"
  by (induction us1 arbitrary: cache s) (auto split: prod.splits sum.splits)

lemma shorten_aborts:
  assumes "arrayFromSet (jsmap_keys (collectUrls doc)) = us1 @ url # us2"
    and "resolveUrls P nanoid B us1 (collectUrls doc) s = (Inr cache1, s1)"
    and "allocate P nanoid url s1 = (Inl e, s2)"
  shows "shorten P nanoid B doc s = (InternalServerError, s2)"
  using assms by (simp add: shorten_def Let_def resolveUrls_append)

lemma tableStore_collision:
  "sid \<in> set (map shortId rows) \<Longrightarrow>
   create tableStore sid url rows = (Inl (uniqueViolation ''shortId''), rows)"
  by (simp add: tableStore_def)

section \<open>Claims about the allocator\<close>

text \<open>
  C8. Let \<^verbatim>\<open>create\<close> reject the first \<open>k\<close> candidates with a unique violation that
  names \<^verbatim>\<open>shortId\<close>, leaving the store as it is. If \<open>k\<close> is below
  \<^verbatim>\<open>maxAttempts\<close> and the next candidate is accepted, the allocator returns that last
  candidate, having made \<open>k + 1\<close> draws. If \<open>k\<close> is \<^verbatim>\<open>maxAttempts\<close> (and that is not
  0), the allocator fails: it throws the violation of its last attempt, which is how the
  code signals that the budget is used up, and the store is as before, so no row is
  created. On the shorten path, where the budget is 6 and the length 8, six collisions
  for an address the lookup did not find make the whole request answer with the 500
  response and no document.
\<close>

theorem collision_retry:
  assumes "\<forall>i<k. \<exists>t. create P (nanoid (n + i) len) url d
                    = (Inl (PrismaClientKnownRequestError ''P2002'' t), d)
                  \<and> ''shortId'' \<in> set (targets_of t)"
  shows "(k < maxAttempts \<and> create P (nanoid (n + k) len) url d = (Inr row, d')
           \<longrightarrow> createUrlWithUniqueShortId P nanoid url len maxAttempts (d, n)
                 = (Inr (nanoid (n + k) len), (d', Suc (n + k))))
       \<and> (0 < k \<and> k = maxAttempts
           \<longrightarrow> (\<exists>t. createUrlWithUniqueShortId P nanoid url len maxAttempts (d, n)
                        = (Inl (PrismaClientKnownRequestError ''P2002'' t), (d, n + k))
                    \<and> ''shortId'' \<in> set (targets_of t)))
       \<and> (k = 6 \<and> len = 8
            \<and> arrayFromSet (jsmap_keys (collectUrls doc)) = us1 @ url # us2
            \<and> resolveUrls P nanoid B us1 (collectUrls doc) s = (Inr cache1, (d1, n))
            \<and> findFirst P url d1 = (Inr None, d)
           \<longrightarrow> shorten P nanoid B doc s = (InternalServerError, (d, n + 6)))"
proof (intro conjI impI)
  assume h: "k < maxAttempts \<and> create P (nanoid (n + k) len) url d = (Inr row, d')"
  then have "0 + k \<le> maxAttempts" by simp
  from loop_collisions[where P=P and nanoid=nanoid and url=url and len=len and d=d and n=n
      and k=k and attempt=0 and lastError=None and maxAttempts=maxAttempts, OF assms this]
  obtain le where
    "createUrlLoop P nanoid url len maxAttempts 0 None (d, n) =
       createUrlLoop P nanoid url len maxAttempts k le (d, n + k)" by auto
  then show "createUrlWithUniqueShortId P nanoid url len maxAttempts (d, n)
                 = (Inr (nanoid (n + k) len), (d', Suc (n + k)))"
    using h by (simp add: createUrlWithUniqueShortId_def loop_created)
next
  assume h: "0 < k \<and> k = maxAttempts"
  then have "0 + k \<le> maxAttempts" by simp
  from loop_collisions[where P=P and nanoid=nanoid and url=url and len=len and d=d and n=n
      and k=k and attempt=0 and lastError=None and maxAttempts=maxAttempts, OF assms this]
  obtain le t where
    "createUrlLoop P nanoid url len maxAttempts 0 None (d, n) =
       createUrlLoop P nanoid url len maxAttempts k le (d, n + k)"
    "le = Some (PrismaClientKnownRequestError ''P2002'' t)" "''shortId'' \<in> set (targets_of t)"
    using h by auto
  then show "\<exists>t. createUrlWithUniqueShortId P nanoid url len maxAttempts (d, n)
                        = (Inl (PrismaClientKnownRequestError ''P2002'' t), (d, n + k))
                    \<and> ''shortId'' \<in> set (targets_of t)"
    using h by (auto simp: createUrlWithUniqueShortId_def loop_exhausted)
next
  assume h: "k = 6 \<and> len = 8
            \<and> arrayFromSet (jsmap_keys (collectUrls doc)) = us1 @ url # us2
            \<and> resolveUrls P nanoid B us1 (collectUrls doc) s = (Inr cache1, (d1, n))
            \<and> findFirst P url d1 = (Inr None, d)"
  have "0 + k \<le> 6" using h by simp
  from loop_collisions[where P=P and nanoid=nanoid and url=url and len=len and d=d and n=n
      and k=k and attempt=0 and lastError=None and maxAttempts=6, OF assms this]
  obtain le t where
    "createUrlLoop P nanoid url len 6 0 None (d, n) = createUrlLoop P nanoid url len 6 k le (d, n + k)"
    "le = Some (PrismaClientKnownRequestError ''P2002'' t)"
    using h by auto
  then have "allocate P nanoid url (d1, n) = (Inl (PrismaClientKnownRequestError ''P2002'' t), (d, n + 6))"
    using h by (simp add: allocate_def createUrlWithUniqueShortId_def loop_exhausted)
  then show "shorten P nanoid B doc s = (InternalServerError, (d, n + 6))"
    using h shorten_aborts by blast
qed

theorem collision_retry_witness:
  "createUrlWithUniqueShortId tableStore (idsInTurn [''aaaaaaaa'', ''bbbbbbbb'', ''cccccccc''])
      ''https://example.com'' 8 6 (twoRows, 0)
     = (Inr ''cccccccc'',
        (twoRows @ [\<lparr>shortId = ''cccccccc'', originalUrl = ''https://example.com''\<rparr>], 3))
   \<and> (\<exists>t. createUrlWithUniqueShortId tableStore
          (idsInTurn [''aaaaaaaa'', ''bbbbbbbb'', ''aaaaaaaa'', ''bbbbbbbb'', ''aaaaaaaa'', ''bbbbbbbb''])
          ''https://example.com'' 8 6 (twoRows, 0)
        = (Inl (PrismaClientKnownRequestError ''P2002'' t), (twoRows, 6)))
   \<and> shorten tableStore
        (idsInTurn [''aaaaaaaa'', ''bbbbbbbb'', ''aaaaaaaa'', ''bbbbbbbb'', ''aaaaaaaa'', ''bbbbbbbb''])
        ''http://localhost:4000'' oneLinkDoc (twoRows, 0)
     = (InternalServerError, (twoRows, 6))"
proof -
  let ?url = "''https://example.com''"
  let ?ids3 = "idsInTurn [''aaaaaaaa'', ''bbbbbbbb'', ''cccccccc'']"
  let ?ids6 = "idsInTurn [''aaaaaaaa'', ''bbbbbbbb'', ''aaaaaaaa'', ''bbbbbbbb'', ''aaaaaaaa'', ''bbbbbbbb'']"
  have tv: "''shortId'' \<in> set (targets_of (TargetArray [''shortId'']))"
    by (simp add: targets_of_def)
  have c3: "\<forall>i<2. \<exists>t. create tableStore (?ids3 (0 + i) 8) ?url twoRows
              = (Inl (PrismaClientKnownRequestError ''P2002'' t), twoRows)
            \<and> ''shortId'' \<in> set (targets_of t)"
  proof (intro allI impI)
    fix i :: nat assume "i < 2"
    then have "i = 0 \<or> i = 1" by auto
    then have "?ids3 (0 + i) 8 \<in> set (map shortId twoRows)"
      by (auto simp: idsInTurn_def twoRows_def)
    then show "\<exists>t. create tableStore (?ids3 (0 + i) 8) ?url twoRows
              = (Inl (PrismaClientKnownRequestError ''P2002'' t), twoRows)
            \<and> ''shortId'' \<in> set (targets_of t)"
      using tv by (simp add: tableStore_collision uniqueViolation_def del: One_nat_def)
  qed
  have ok: "create tableStore (?ids3 (0 + 2) 8) ?url twoRows
      = (Inr \<lparr>shortId = ''cccccccc'', originalUrl = ''https://example.com''\<rparr>,
         twoRows @ [\<lparr>shortId = ''cccccccc'', originalUrl = ''https://example.com''\<rparr>])"
    by (simp add: tableStore_def idsInTurn_def twoRows_def)
  have c6: "\<forall>i<6. \<exists>t. create tableStore (?ids6 (0 + i) 8) ?url twoRows
              = (Inl (PrismaClientKnownRequestError ''P2002'' t), twoRows)
            \<and> ''shortId'' \<in> set (targets_of t)"
  proof (intro allI impI)
    fix i :: nat assume "i < 6"
    then have "i = 0 \<or> i = 1 \<or> i = 2 \<or> i = 3 \<or> i = 4 \<or> i = 5" by auto
    then have "?ids6 (0 + i) 8 \<in> set (map shortId twoRows)"
      by (auto simp: idsInTurn_def twoRows_def)
    then show "\<exists>t. create tableStore (?ids6 (0 + i) 8) ?url twoRows
              = (Inl (PrismaClientKnownRequestError ''P2002'' t), twoRows)
            \<and> ''shortId'' \<in> set (targets_of t)"
      using tv by (simp add: tableStore_collision uniqueViolation_def del: One_nat_def)
  qed
  have uq: "arrayFromSet (jsmap_keys (collectUrls oneLinkDoc)) = [] @ ?url # []"
    by code_simp
  have ff: "findFirst tableStore ?url twoRows = (Inr None, twoRows)"
    by (simp add: tableStore_def twoRows_def)
  have r0: "resolveUrls tableStore ?ids6 ''http://localhost:4000'' [] (collectUrls oneLinkDoc) (twoRows, 0)
      = (Inr (collectUrls oneLinkDoc), (twoRows, 0))" by simp
  note a = collision_retry[where P=tableStore and nanoid="?ids3" and n=0 and k=2 and len=8
      and url="?url" and d=twoRows and maxAttempts=6
      and row="\<lparr>shortId = ''cccccccc'', originalUrl = ''https://example.com''\<rparr>"
      and d'="twoRows @ [\<lparr>shortId = ''cccccccc'', originalUrl = ''https://example.com''\<rparr>]",
      OF c3]
  note b = collision_retry[where P=tableStore and nanoid="?ids6" and n=0 and k=6 and len=8
      and url="?url" and d=twoRows and maxAttempts=6 and doc=oneLinkDoc and ?us1.0="[]"
      and ?us2.0="[]" and B="''http://localhost:4000''" and s="(twoRows, 0)"
      and ?cache1.0="collectUrls oneLinkDoc" and ?d1.0=twoRows, OF c6]
  have i2: "?ids3 (Suc (Suc 0)) 8 = ''cccccccc''" by (simp add: idsInTurn_def)
  have A: "createUrlWithUniqueShortId tableStore ?ids3 ?url 8 6 (twoRows, 0)
     = (Inr ''cccccccc'',
        (twoRows @ [\<lparr>shortId = ''cccccccc'', originalUrl = ''https://example.com''\<rparr>], 3))"
    using a ok i2 by simp
  have B: "\<exists>t. createUrlWithUniqueShortId tableStore ?ids6 ?url 8 6 (twoRows, 0)
        = (Inl (PrismaClientKnownRequestError ''P2002'' t), (twoRows, 6))"
    using b by auto
  have C: "shorten tableStore ?ids6 ''http://localhost:4000'' oneLinkDoc (twoRows, 0)
     = (InternalServerError, (twoRows, 6))"
    using b uq ff r0 by simp
  show ?thesis using A B C by blast
qed



text \<open>
  C1 (as amended). If \<^verbatim>\<open>create\<close> fails with \<^verbatim>\<open>P2002\<close> and a target that names
  fields but not \<^verbatim>\<open>shortId\<close> (so \<^verbatim>\<open>originalUrl\<close>), the allocator throws that error
  at once: it makes no further call, neither a lookup by \<^verbatim>\<open>originalUrl\<close> nor another
  attempt, and returns no short id. On the shorten path the request answers with the 500
  response.
\<close>

theorem other_unique_violation_rethrown:
  assumes "attempt < maxAttempts"
    and "create P (nanoid n len) url d = (Inl (PrismaClientKnownRequestError ''P2002'' target), d')"
    and "targets_of target \<noteq> []" and "''shortId'' \<notin> set (targets_of target)"
  shows "createUrlLoop P nanoid url len maxAttempts attempt lastError (d, n)
           = (Inl (PrismaClientKnownRequestError ''P2002'' target), (d', Suc n))
       \<and> (attempt = 0 \<longrightarrow> createUrlWithUniqueShortId P nanoid url len maxAttempts (d, n)
           = (Inl (PrismaClientKnownRequestError ''P2002'' target), (d', Suc n)))
       \<and> (attempt = 0 \<and> len = 8 \<and> maxAttempts = 6
            \<and> arrayFromSet (jsmap_keys (collectUrls doc)) = us1 @ url # us2
            \<and> resolveUrls P nanoid B us1 (collectUrls doc) s = (Inr cache1, (d1, n))
            \<and> findFirst P url d1 = (Inr None, d)
           \<longrightarrow> shorten P nanoid B doc s = (InternalServerError, (d', Suc n)))"
proof -
  have r: "createUrlLoop P nanoid url len maxAttempts attempt le (d, n)
           = (Inl (PrismaClientKnownRequestError ''P2002'' target), (d', Suc n))" for le
    using assms by (intro loop_rethrow) auto
  have "allocate P nanoid url (d1, n) = (Inl (PrismaClientKnownRequestError ''P2002'' target), (d', Suc n))"
    if "attempt = 0" "len = 8" "maxAttempts = 6" "findFirst P url d1 = (Inr None, d)"
    using that r[of None] by (simp add: allocate_def createUrlWithUniqueShortId_def)
  then show ?thesis
    using r shorten_aborts[of doc us1 url us2 P nanoid B s cache1 "(d1, n)"]
    by (auto simp: createUrlWithUniqueShortId_def)
qed

theorem other_unique_violation_rethrown_witness:
  "createUrlWithUniqueShortId tableStore (idsInTurn [''cccccccc'']) ''https://example.com'' 8 6
      ([raceRow], 0)
     = (Inl (PrismaClientKnownRequestError ''P2002'' (TargetArray [''originalUrl''])), ([raceRow], 1))
   \<and> shorten racingStore (idsInTurn [''cccccccc'']) ''http://localhost:4000'' oneLinkDoc
      (([], [raceRow]), 0)
     = (InternalServerError, (([raceRow], []), 1))"
proof -
  let ?ids = "idsInTurn [''cccccccc'']"
  let ?url = "''https://example.com''"
  let ?t = "TargetArray [''originalUrl'']"
  have a: "(0::nat) < 6" by simp
  have c1: "create tableStore (?ids 0 8) ?url [raceRow]
      = (Inl (PrismaClientKnownRequestError ''P2002'' ?t), [raceRow])"
    by (simp add: tableStore_def idsInTurn_def raceRow_def uniqueViolation_def)
  have c2: "create racingStore (?ids 0 8) ?url ([raceRow], [])
      = (Inl (PrismaClientKnownRequestError ''P2002'' ?t), ([raceRow], []))"
    by (simp add: racingStore_def tableStore_def idsInTurn_def raceRow_def uniqueViolation_def)
  have t1: "targets_of ?t \<noteq> []" by (simp add: targets_of_def)
  have t2: "''shortId'' \<notin> set (targets_of ?t)" by (simp add: targets_of_def)
  have uq: "arrayFromSet (jsmap_keys (collectUrls oneLinkDoc)) = [] @ ?url # []"
    by code_simp
  have ff: "findFirst racingStore ?url ([], [raceRow]) = (Inr None, ([raceRow], []))"
    by (simp add: racingStore_def tableStore_def)
  have r0: "resolveUrls racingStore ?ids ''http://localhost:4000'' [] (collectUrls oneLinkDoc)
      (([], [raceRow]), 0) = (Inr (collectUrls oneLinkDoc), (([], [raceRow]), 0))" by simp
  note x = other_unique_violation_rethrown[where P=tableStore and nanoid="?ids" and url="?url"
      and len=8 and n=0 and d="[raceRow]" and d'="[raceRow]" and target="?t" and attempt=0
      and maxAttempts=6 and lastError=None, OF a c1 t1 t2]
  note y = other_unique_violation_rethrown[where P=racingStore and nanoid="?ids" and url="?url"
      and len=8 and n=0 and d="([raceRow], [])" and d'="([raceRow], [])" and target="?t"
      and attempt=0 and maxAttempts=6 and lastError=None and doc=oneLinkDoc and ?us1.0="[]"
      and ?us2.0="[]" and B="''http://localhost:4000''" and s="(([], [raceRow]), 0)"
      and ?cache1.0="collectUrls oneLinkDoc" and ?d1.0="([], [raceRow])", OF a c2 t1 t2]
  have X: "createUrlWithUniqueShortId tableStore ?ids ?url 8 6 ([raceRow], 0)
     = (Inl (PrismaClientKnownRequestError ''P2002'' ?t), ([raceRow], 1))"
    using x by simp
  have Y: "shorten racingStore ?ids ''http://localhost:4000'' oneLinkDoc (([], [raceRow]), 0)
     = (InternalServerError, (([raceRow], []), 1))"
    using y uq ff r0 by simp
  show ?thesis using X Y by blast
qed

text \<open>
  C1 as stated fails. Another request creates the row for \<^verbatim>\<open>https://example.com\<close>
  between the lookup and the \<^verbatim>\<open>create\<close>: the shorten request answers 500, although a
  lookup by \<^verbatim>\<open>originalUrl\<close> on the store it leaves finds the row with the short id
  \<^verbatim>\<open>aaaaaaaa\<close>. The same on the allocator alone, called on a store that has the row.
\<close>

theorem concurrent_create_counterexample:
  "shorten racingStore (idsInTurn [''cccccccc'']) ''http://localhost:4000'' oneLinkDoc
      (([], [raceRow]), 0)
     = (InternalServerError, (([raceRow], []), 1))
   \<and> findFirst racingStore ''https://example.com'' ([raceRow], [])
     = (Inr (Some raceRow), ([raceRow], []))
   \<and> createUrlWithUniqueShortId tableStore (idsInTurn [''cccccccc'']) ''https://example.com'' 8 6
      ([raceRow], 0)
     = (Inl (uniqueViolation ''originalUrl''), ([raceRow], 1))
   \<and> findFirst tableStore ''https://example.com'' [raceRow] = (Inr (Some raceRow), [raceRow])"
  by code_simp

section \<open>Facts about the shorten handler\<close>

lemma collectUrl_value: "collectUrl attr attribs cache = collectValue (jsmap_get attr attribs) cache"
  by (auto simp: collectUrl_def collectValue_def Let_def split: option.splits)

lemma fold_collectUrl:
  "fold (collectUrl attr) as cache = fold collectValue (map (jsmap_get attr) as) cache"
  by (induction as arbitrary: cache) (simp_all add: collectUrl_value)

lemma collectUrls_linkValues: "collectUrls doc = fold collectValue (linkValues doc) []"
  by (simp add: collectUrls_def linkValues_def attrTargets_def fold_collectUrl)

lemma replaceUrl_value:
  "jsmap_get attr (replaceUrl cache attr attribs) = replaceValue cache (jsmap_get attr attribs)"
  by (auto simp: replaceUrl_def replaceValue_def Let_def jsmap_get_set split: option.splits)

lemma select_each:
  "select tag (each tag' f nd) = (if tag = tag' then map f (select tag nd) else select tag nd)"
proof (induction nd)
  case (Text t)
  then show ?case by simp
next
  case (Element name attribs children)
  have "concat (map (select tag \<circ> each tag' f) children)
          = (if tag = tag' then map f (concat (map (select tag) children))
             else concat (map (select tag) children))"
    using Element.IH by (induction children) (auto simp: map_concat)
  then show ?case by (auto simp: comp_def)
qed

lemma selectAll_each:
  "selectAll tag (map (each tag' f) doc)
     = (if tag = tag' then map f (selectAll tag doc) else selectAll tag doc)"
  by (induction doc) (auto simp: selectAll_def select_each)

lemma selectAll_applyReplacements:
  assumes "(tag, attr) \<in> set attrTargets"
  shows "selectAll tag (applyReplacements cache doc) = map (replaceUrl cache attr) (selectAll tag doc)"
  using assms
  by (auto simp add: applyReplacements_def attrTargets_def selectAll_each
           simp del: map_map map_comp_map)

lemma linkValues_applyReplacements:
  "linkValues (applyReplacements cache doc) = map (replaceValue cache) (linkValues doc)"
proof -
  have eq: "map (jsmap_get (snd p)) (selectAll (fst p) (applyReplacements cache doc))
      = map (replaceValue cache) (map (jsmap_get (snd p)) (selectAll (fst p) doc))"
    if "p \<in> set attrTargets" for p
  proof -
    obtain tag attr where p: "p = (tag, attr)" by (cases p)
    show ?thesis
      using that by (simp add: p selectAll_applyReplacements replaceUrl_value comp_def)
  qed
  have "linkValues (applyReplacements cache doc)
      = concat (map (\<lambda>p. map (jsmap_get (snd p)) (selectAll (fst p) (applyReplacements cache doc)))
          attrTargets)"
    by (simp add: linkValues_def case_prod_unfold)
  also have "\<dots> = concat (map (\<lambda>p. map (replaceValue cache)
          (map (jsmap_get (snd p)) (selectAll (fst p) doc))) attrTargets)"
    using eq by (simp cong: map_cong)
  also have "\<dots> = map (replaceValue cache) (linkValues doc)"
    by (simp add: linkValues_def case_prod_unfold map_concat comp_def)
  finally show ?thesis .
qed

lemma keys_collectValue:
  "jsmap_keys (collectValue v c) =
     (case v of
        None \<Rightarrow> jsmap_keys c
      | Some h \<Rightarrow> if isShortenable v \<and> h \<notin> set (jsmap_keys c) then jsmap_keys c @ [h]
                  else jsmap_keys c)"
proof (cases v)
  case None
  then show ?thesis by (simp add: collectValue_def isShortenable_def)
next
  case (Some h)
  show ?thesis
  proof (cases "jsmap_get h c")
    case None
    then have "h \<notin> set (jsmap_keys c)" by (simp add: jsmap_get_None)
    then show ?thesis using Some None by (simp add: collectValue_def jsmap_keys_set)
  next
    case (Some su)
    then have "h \<in> set (jsmap_keys c)" using jsmap_get_None[of h c] by auto
    then show ?thesis using \<open>v = Some h\<close> Some by (simp add: collectValue_def jsmap_keys_set)
  qed
qed

lemma keys_fold_collectValue:
  "distinct (jsmap_keys c) \<Longrightarrow>
   distinct (jsmap_keys (fold collectValue vs c))
   \<and> set (jsmap_keys (fold collectValue vs c))
       = set (jsmap_keys c) \<union> {h. Some h \<in> set vs \<and> isShortenable (Some h)}"
proof (induction vs arbitrary: c)
  case Nil
  then show ?case by simp
next
  case (Cons v vs)
  have d: "distinct (jsmap_keys (collectValue v c))"
    using Cons.prems by (auto simp: keys_collectValue split: option.splits)
  have s: "set (jsmap_keys (collectValue v c))
      = set (jsmap_keys c) \<union> {h. v = Some h \<and> isShortenable (Some h)}"
    by (auto simp: keys_collectValue split: option.splits)
  show ?case using Cons.IH[OF d] s by auto
qed

lemma arrayFromSet_distinct: "distinct xs \<Longrightarrow> arrayFromSet xs = xs"
proof -
  have "distinct (acc @ xs) \<Longrightarrow>
        fold (\<lambda>x acc. if x \<in> set acc then acc else acc @ [x]) xs acc = acc @ xs" for acc
    by (induction xs arbitrary: acc) auto
  from this[of "[]"] show "distinct xs \<Longrightarrow> arrayFromSet xs = xs"
    by (simp add: arrayFromSet_def)
qed

lemma uniqueUrls:
  "distinct (arrayFromSet (jsmap_keys (collectUrls doc)))
   \<and> set (arrayFromSet (jsmap_keys (collectUrls doc)))
       = {h. Some h \<in> set (linkValues doc) \<and> isShortenable (Some h)}"
  using keys_fold_collectValue[of "[]" "linkValues doc"]
  by (simp add: collectUrls_linkValues arrayFromSet_distinct jsmap_keys_def)

lemma resolveUrls_cache:
  "resolveUrls P nanoid B us cache s = (Inr cache', s') \<Longrightarrow>
   (\<forall>u. u \<notin> set us \<longrightarrow> jsmap_get u cache' = jsmap_get u cache)
   \<and> (\<forall>u\<in>set us. \<exists>sid. jsmap_get u cache' = Some (B @ ''/r/'' @ sid))"
proof (induction us arbitrary: cache s)
  case Nil
  then show ?case by simp
next
  case (Cons url us)
  from Cons.prems obtain sid s1 where
    a: "allocate P nanoid url s = (Inr sid, s1)"
    and r: "resolveUrls P nanoid B us (jsmap_set url (B @ ''/r/'' @ sid) cache) s1 = (Inr cache', s')"
    by (auto split: prod.splits sum.splits)
  note ih = Cons.IH[OF r]
  show ?case
  proof (intro conjI allI impI ballI)
    fix u assume "u \<notin> set (url # us)"
    then show "jsmap_get u cache' = jsmap_get u cache"
      using ih by (simp add: jsmap_get_set)
  next
    fix u assume u: "u \<in> set (url # us)"
    show "\<exists>sid. jsmap_get u cache' = Some (B @ ''/r/'' @ sid)"
    proof (cases "u \<in> set us")
      case True
      then show ?thesis using ih by blast
    next
      case False
      then have "u = url" using u by simp
      then show ?thesis using ih False by (auto simp: jsmap_get_set)
    qed
  qed
qed

lemma replaceValue_resolved:
  "isShortenable (Some u) \<Longrightarrow> jsmap_get u cache = Some (B @ ''/r/'' @ sid) \<Longrightarrow>
   replaceValue cache (Some u) = Some (B @ ''/r/'' @ sid)"
  by (simp add: replaceValue_def)

lemma traced_findFirst:
  "findFirst (traced P) url (d, tr)
     = (fst (findFirst P url d), (snd (findFirst P url d), tr @ [FindFirst url]))"
  by (simp add: traced_def split: prod.splits)

lemma traced_create:
  "create (traced P) sid url (d, tr)
     = (fst (create P sid url d),
        (snd (create P sid url d), tr @ [Create sid url (\<not> isl (fst (create P sid url d)))]))"
  by (simp add: traced_def split: prod.splits)

lemma lookups_append: "lookups u (xs @ ys) = lookups u xs + lookups u ys"
  by (simp add: lookups_def)

lemma creations_append: "creations u (xs @ ys) = creations u xs + creations u ys"
  by (simp add: creations_def)

lemma loop_calls:
  "createUrlLoop (traced P) nanoid url len maxAttempts attempt le ((d, tr), n) = (r, ((d', tr'), n'))
   \<Longrightarrow> lookups u tr' = lookups u tr
     \<and> creations u tr' = creations u tr + (if u = url \<and> \<not> isl r then 1 else 0)"
proof (induction "maxAttempts - attempt" arbitrary: attempt le d tr n)
  case 0
  then have "\<not> attempt < maxAttempts" by simp
  then show ?case using "0.prems" by (auto simp: loop_exhausted)
next
  case (Suc m)
  then have lt: "attempt < maxAttempts" by simp
  let ?sid = "nanoid n len"
  obtain res d1 where c: "create P ?sid url d = (res, d1)" by (cases "create P ?sid url d")
  have tc: "create (traced P) ?sid url (d, tr) = (res, (d1, tr @ [Create ?sid url (\<not> isl res)]))"
    using c by (simp add: traced_create)
  show ?case
  proof (cases res)
    case (Inr row)
    have "createUrlLoop (traced P) nanoid url len maxAttempts attempt le ((d, tr), n)
        = (Inr ?sid, ((d1, tr @ [Create ?sid url True]), Suc n))"
      using lt tc Inr by (simp add: loop_created)
    then show ?thesis using Suc.prems
      by (auto simp: lookups_append creations_append) (auto simp: lookups_def creations_def)
  next
    case (Inl e)
    show ?thesis
    proof (cases "\<exists>target. e = PrismaClientKnownRequestError ''P2002'' target
                   \<and> (targets_of target = [] \<or> ''shortId'' \<in> set (targets_of target))")
      case True
      then obtain target where e: "e = PrismaClientKnownRequestError ''P2002'' target"
        and t: "targets_of target = [] \<or> ''shortId'' \<in> set (targets_of target)" by blast
      have "createUrlLoop (traced P) nanoid url len maxAttempts attempt le ((d, tr), n)
        = createUrlLoop (traced P) nanoid url len maxAttempts (Suc attempt) (Some e)
            ((d1, tr @ [Create ?sid url False]), Suc n)"
        using lt tc Inl e t by (simp add: loop_retry)
      then have "createUrlLoop (traced P) nanoid url len maxAttempts (Suc attempt) (Some e)
            ((d1, tr @ [Create ?sid url False]), Suc n) = (r, ((d', tr'), n'))"
        using Suc.prems by simp
      moreover have "m = maxAttempts - Suc attempt" using Suc.hyps(2) by simp
      ultimately have "lookups u tr' = lookups u (tr @ [Create ?sid url False])
        \<and> creations u tr' = creations u (tr @ [Create ?sid url False])
            + (if u = url \<and> \<not> isl r then 1 else 0)"
        by (rule Suc.hyps(1)[rotated])
      then show ?thesis by (simp add: lookups_def creations_def)
    next
      case False
      have "createUrlLoop (traced P) nanoid url len maxAttempts attempt le ((d, tr), n)
        = (Inl e, ((d1, tr @ [Create ?sid url False]), Suc n))"
        using lt tc Inl False by (intro loop_rethrow) auto
      then show ?thesis using Suc.prems
        by (auto simp: lookups_append creations_append) (auto simp: lookups_def creations_def)
    qed
  qed
qed

lemma allocate_calls:
  assumes "allocate (traced P) nanoid url ((d, tr), n) = (r, ((d', tr'), n'))"
  shows "lookups u tr' = lookups u tr + (if u = url then 1 else 0)
     \<and> creations u tr' \<le> creations u tr + (if u = url then 1 else 0)"
proof -
  obtain res d1 where f: "findFirst P url d = (res, d1)" by (cases "findFirst P url d")
  have tf: "findFirst (traced P) url (d, tr) = (res, (d1, tr @ [FindFirst url]))"
    using f by (simp add: traced_findFirst)
  have l1: "lookups u (tr @ [FindFirst url]) = lookups u tr + (if u = url then 1 else 0)"
    by (auto simp: lookups_def)
  have c1: "creations u (tr @ [FindFirst url]) = creations u tr"
    by (simp add: creations_def)
  show ?thesis
  proof (cases res)
    case (Inl e)
    then show ?thesis using assms tf l1 c1 by (auto simp: allocate_def)
  next
    case (Inr found)
    show ?thesis
    proof (cases found)
      case (Some row)
      then show ?thesis using assms tf Inr l1 c1 by (auto simp: allocate_def)
    next
      case None
      then have "createUrlLoop (traced P) nanoid url 8 6 0 None ((d1, tr @ [FindFirst url]), n)
          = (r, ((d', tr'), n'))"
        using assms tf Inr by (simp add: allocate_def createUrlWithUniqueShortId_def)
      from loop_calls[OF this, of u] show ?thesis using l1 c1 by auto
    qed
  qed
qed

lemma resolveUrls_calls:
  "resolveUrls (traced P) nanoid B us cache ((d, tr), n) = (Inr cache', ((d', tr'), n'))
   \<Longrightarrow> lookups u tr' = lookups u tr + count_list us u
     \<and> creations u tr' \<le> creations u tr + count_list us u"
proof (induction us arbitrary: cache d tr n)
  case Nil
  then show ?case by simp
next
  case (Cons url us)
  from Cons.prems obtain sid s1 where
    a: "allocate (traced P) nanoid url ((d, tr), n) = (Inr sid, s1)"
    and r: "resolveUrls (traced P) nanoid B us (jsmap_set url (B @ ''/r/'' @ sid) cache) s1
              = (Inr cache', ((d', tr'), n'))"
    by (auto split: prod.splits sum.splits)
  obtain d1 tr1 n1 where s1: "s1 = ((d1, tr1), n1)" by (metis surj_pair)
  note x = allocate_calls[OF a[unfolded s1], of u]
  note y = Cons.IH[OF r[unfolded s1]]
  show ?case using x y by auto
qed

lemma createCalls_snoc:
  "createCalls u (tr @ [Create sid url ok]) = createCalls u tr + (if u = url then 1 else 0)"
  "createCalls u (tr @ [FindFirst url]) = createCalls u tr"
  by (auto simp: createCalls_def)

lemma loop_createCalls:
  "createUrlLoop (traced P) nanoid url len maxAttempts attempt le ((d, tr), n) = (r, ((d', tr'), n'))
   \<Longrightarrow> createCalls u tr' \<le> createCalls u tr + (if u = url then maxAttempts - attempt else 0)"
proof (induction "maxAttempts - attempt" arbitrary: attempt le d tr n)
  case 0
  then have "\<not> attempt < maxAttempts" by simp
  then show ?case using "0.prems" by (auto simp: loop_exhausted)
next
  case (Suc m)
  then have lt: "attempt < maxAttempts" by simp
  let ?sid = "nanoid n len"
  obtain res d1 where c: "create P ?sid url d = (res, d1)" by (cases "create P ?sid url d")
  have tc: "create (traced P) ?sid url (d, tr) = (res, (d1, tr @ [Create ?sid url (\<not> isl res)]))"
    using c by (simp add: traced_create)
  show ?case
  proof (cases res)
    case (Inr row)
    have "createUrlLoop (traced P) nanoid url len maxAttempts attempt le ((d, tr), n)
        = (Inr ?sid, ((d1, tr @ [Create ?sid url True]), Suc n))"
      using lt tc Inr by (simp add: loop_created)
    then show ?thesis using Suc.prems lt by (auto simp: createCalls_snoc)
  next
    case (Inl e)
    show ?thesis
    proof (cases "\<exists>target. e = PrismaClientKnownRequestError ''P2002'' target
                   \<and> (targets_of target = [] \<or> ''shortId'' \<in> set (targets_of target))")
      case True
      then obtain target where e: "e = PrismaClientKnownRequestError ''P2002'' target"
        and t: "targets_of target = [] \<or> ''shortId'' \<in> set (targets_of target)" by blast
      have "createUrlLoop (traced P) nanoid url len maxAttempts attempt le ((d, tr), n)
        = createUrlLoop (traced P) nanoid url len maxAttempts (Suc attempt) (Some e)
            ((d1, tr @ [Create ?sid url False]), Suc n)"
        using lt tc Inl e t by (simp add: loop_retry)
      then have "createUrlLoop (traced P) nanoid url len maxAttempts (Suc attempt) (Some e)
            ((d1, tr @ [Create ?sid url False]), Suc n) = (r, ((d', tr'), n'))"
        using Suc.prems by simp
      moreover have "m = maxAttempts - Suc attempt" using Suc.hyps(2) by simp
      ultimately have "createCalls u tr' \<le> createCalls u (tr @ [Create ?sid url False])
            + (if u = url then maxAttempts - Suc attempt else 0)"
        by (rule Suc.hyps(1)[rotated])
      then show ?thesis using lt by (auto simp: createCalls_snoc)
    next
      case False
      have "createUrlLoop (traced P) nanoid url len maxAttempts attempt le ((d, tr), n)
        = (Inl e, ((d1, tr @ [Create ?sid url False]), Suc n))"
        using lt tc Inl False by (intro loop_rethrow) auto
      then show ?thesis using Suc.prems lt by (auto simp: createCalls_snoc)
    qed
  qed
qed

lemma allocate_createCalls:
  assumes "allocate (traced P) nanoid url ((d, tr), n) = (r, ((d', tr'), n'))"
  shows "createCalls u tr' \<le> createCalls u tr + (if u = url then 6 else 0)"
proof -
  obtain res d1 where f: "findFirst P url d = (res, d1)" by (cases "findFirst P url d")
  have tf: "findFirst (traced P) url (d, tr) = (res, (d1, tr @ [FindFirst url]))"
    using f by (simp add: traced_findFirst)
  show ?thesis
  proof (cases res)
    case (Inl e)
    then show ?thesis using assms tf by (auto simp: allocate_def createCalls_snoc)
  next
    case (Inr found)
    show ?thesis
    proof (cases found)
      case (Some row)
      then show ?thesis using assms tf Inr by (auto simp: allocate_def createCalls_snoc)
    next
      case None
      then have "createUrlLoop (traced P) nanoid url 8 6 0 None ((d1, tr @ [FindFirst url]), n)
          = (r, ((d', tr'), n'))"
        using assms tf Inr by (simp add: allocate_def createUrlWithUniqueShortId_def)
      from loop_createCalls[OF this, of u] show ?thesis by (auto simp: createCalls_snoc)
    qed
  qed
qed

lemma resolveUrls_createCalls:
  "resolveUrls (traced P) nanoid B us cache ((d, tr), n) = (Inr cache', ((d', tr'), n'))
   \<Longrightarrow> createCalls u tr' \<le> createCalls u tr + 6 * count_list us u"
proof (induction us arbitrary: cache d tr n)
  case Nil
  then show ?case by simp
next
  case (Cons url us)
  from Cons.prems obtain sid s1 where
    a: "allocate (traced P) nanoid url ((d, tr), n) = (Inr sid, s1)"
    and r: "resolveUrls (traced P) nanoid B us (jsmap_set url (B @ ''/r/'' @ sid) cache) s1
              = (Inr cache', ((d', tr'), n'))"
    by (auto split: prod.splits sum.splits)
  obtain d1 tr1 n1 where s1: "s1 = ((d1, tr1), n1)" by (metis surj_pair)
  note x = allocate_createCalls[OF a[unfolded s1], of u]
  note y = Cons.IH[OF r[unfolded s1]]
  show ?case using x y by auto
qed

lemma loop_trace:
  "createUrlLoop (traced P) nanoid url len maxAttempts attempt le ((d, tr), n) = (r, ((d', tr'), n'))
   \<Longrightarrow> \<exists>evs. tr' = tr @ evs \<and> (\<forall>sid. r = Inr sid \<longrightarrow> Create sid url True \<in> set evs)"
proof (induction "maxAttempts - attempt" arbitrary: attempt le d tr n)
  case 0
  then have "\<not> attempt < maxAttempts" by simp
  then show ?case using "0.prems" by (auto simp: loop_exhausted)
next
  case (Suc m)
  then have lt: "attempt < maxAttempts" by simp
  let ?sid = "nanoid n len"
  obtain res d1 where c: "create P ?sid url d = (res, d1)" by (cases "create P ?sid url d")
  have tc: "create (traced P) ?sid url (d, tr) = (res, (d1, tr @ [Create ?sid url (\<not> isl res)]))"
    using c by (simp add: traced_create)
  show ?case
  proof (cases res)
    case (Inr row)
    have "createUrlLoop (traced P) nanoid url len maxAttempts attempt le ((d, tr), n)
        = (Inr ?sid, ((d1, tr @ [Create ?sid url True]), Suc n))"
      using lt tc Inr by (simp add: loop_created)
    then show ?thesis using Suc.prems by auto
  next
    case (Inl e)
    show ?thesis
    proof (cases "\<exists>target. e = PrismaClientKnownRequestError ''P2002'' target
                   \<and> (targets_of target = [] \<or> ''shortId'' \<in> set (targets_of target))")
      case True
      then obtain target where e: "e = PrismaClientKnownRequestError ''P2002'' target"
        and t: "targets_of target = [] \<or> ''shortId'' \<in> set (targets_of target)" by blast
      have "createUrlLoop (traced P) nanoid url len maxAttempts attempt le ((d, tr), n)
        = createUrlLoop (traced P) nanoid url len maxAttempts (Suc attempt) (Some e)
            ((d1, tr @ [Create ?sid url False]), Suc n)"
        using lt tc Inl e t by (simp add: loop_retry)
      then have "createUrlLoop (traced P) nanoid url len maxAttempts (Suc attempt) (Some e)
            ((d1, tr @ [Create ?sid url False]), Suc n) = (r, ((d', tr'), n'))"
        using Suc.prems by simp
      moreover have "m = maxAttempts - Suc attempt" using Suc.hyps(2) by simp
      ultimately have "\<exists>evs. tr' = (tr @ [Create ?sid url False]) @ evs
          \<and> (\<forall>sid. r = Inr sid \<longrightarrow> Create sid url True \<in> set evs)"
        by (rule Suc.hyps(1)[rotated])
      then obtain evs where "tr' = tr @ (Create ?sid url False # evs)"
          "\<forall>sid. r = Inr sid \<longrightarrow> Create sid url True \<in> set (Create ?sid url False # evs)"
        by auto
      then show ?thesis by blast
    next
      case False
      have "createUrlLoop (traced P) nanoid url len maxAttempts attempt le ((d, tr), n)
        = (Inl e, ((d1, tr @ [Create ?sid url False]), Suc n))"
        using lt tc Inl False by (intro loop_rethrow) auto
      then show ?thesis using Suc.prems by auto
    qed
  qed
qed

lemma allocate_trace:
  assumes "allocate (traced P) nanoid url ((d, tr), n) = (Inr sid, ((d', tr'), n'))"
  shows "(\<exists>evs. tr' = tr @ evs)
     \<and> ((\<exists>row. fst (findFirst P url d) = Inr (Some row) \<and> sid = shortId row
              \<and> tr' = tr @ [FindFirst url])
        \<or> (fst (findFirst P url d) = Inr None \<and> Create sid url True \<in> set tr'))"
proof -
  obtain res d1 where f: "findFirst P url d = (res, d1)" by (cases "findFirst P url d")
  have tf: "findFirst (traced P) url (d, tr) = (res, (d1, tr @ [FindFirst url]))"
    using f by (simp add: traced_findFirst)
  show ?thesis
  proof (cases res)
    case (Inl e)
    then show ?thesis using assms tf by (auto simp: allocate_def)
  next
    case (Inr found)
    show ?thesis
    proof (cases found)
      case (Some row)
      then show ?thesis using assms tf Inr f by (auto simp: allocate_def)
    next
      case None
      then have "createUrlLoop (traced P) nanoid url 8 6 0 None ((d1, tr @ [FindFirst url]), n)
          = (Inr sid, ((d', tr'), n'))"
        using assms tf Inr by (simp add: allocate_def createUrlWithUniqueShortId_def)
      from loop_trace[OF this] obtain evs where
        "tr' = (tr @ [FindFirst url]) @ evs" "Create sid url True \<in> set evs" by auto
      then show ?thesis using f Inr None by auto
    qed
  qed
qed

lemma resolveUrls_trace:
  "resolveUrls (traced P) nanoid B us cache ((d, tr), n) = (Inr cache', ((d', tr'), n'))
   \<Longrightarrow> \<exists>evs. tr' = tr @ evs"
proof (induction us arbitrary: cache d tr n)
  case Nil
  then show ?case by simp
next
  case (Cons url us)
  from Cons.prems obtain sid s1 where
    a: "allocate (traced P) nanoid url ((d, tr), n) = (Inr sid, s1)"
    and r: "resolveUrls (traced P) nanoid B us (jsmap_set url (B @ ''/r/'' @ sid) cache) s1
              = (Inr cache', ((d', tr'), n'))"
    by (auto split: prod.splits sum.splits)
  obtain d1 tr1 n1 where s1: "s1 = ((d1, tr1), n1)" by (metis surj_pair)
  from allocate_trace[OF a[unfolded s1]] obtain e1 where "tr1 = tr @ e1" by blast
  moreover from Cons.IH[OF r[unfolded s1]] obtain e2 where "tr' = tr1 @ e2" by blast
  ultimately show ?case by simp
qed

lemma creations_member: "Create sid u True \<in> set calls \<Longrightarrow> 1 \<le> creations u calls"
proof (induction calls)
  case Nil
  then show ?case by simp
next
  case (Cons c calls)
  then show ?case by (auto simp: creations_def)
qed

lemma creations_snoc_lookup: "creations u (tr @ [FindFirst url]) = creations u tr"
  by (simp add: creations_def)


lemma resolveUrls_split:
  assumes "resolveUrls P nanoid B (us1 @ u # us2) cache s = (Inr cache', s')"
  shows "\<exists>cache1 s1 sid s2.
           resolveUrls P nanoid B us1 cache s = (Inr cache1, s1)
           \<and> allocate P nanoid u s1 = (Inr sid, s2)
           \<and> resolveUrls P nanoid B us2 (jsmap_set u (B @ ''/r/'' @ sid) cache1) s2 = (Inr cache', s')"
  using assms by (auto simp: resolveUrls_append split: prod.splits sum.splits)

lemma count_list_distinct: "x \<in> set xs \<Longrightarrow> distinct xs \<Longrightarrow> count_list xs x = 1"
  by (induction xs) (auto simp: count_list_0_iff)

lemma linkValues_resolved:
  assumes "resolveUrls P nanoid B (arrayFromSet (jsmap_keys (collectUrls doc))) (collectUrls doc) s
             = (Inr cache', s')"
    and "isShortenable (Some u)" and "Some u \<in> set (linkValues doc)"
  shows "\<exists>sid. jsmap_get u cache' = Some (B @ ''/r/'' @ sid)
           \<and> (\<forall>i<length (linkValues doc). linkValues doc ! i = Some u \<longrightarrow>
                 linkValues (applyReplacements cache' doc) ! i = Some (B @ ''/r/'' @ sid))"
proof -
  have "u \<in> set (arrayFromSet (jsmap_keys (collectUrls doc)))"
    using assms(2,3) uniqueUrls[of doc] by simp
  then obtain sid where sid: "jsmap_get u cache' = Some (B @ ''/r/'' @ sid)"
    using resolveUrls_cache[OF assms(1)] by blast
  have "linkValues (applyReplacements cache' doc) ! i = Some (B @ ''/r/'' @ sid)"
    if "i < length (linkValues doc)" "linkValues doc ! i = Some u" for i
    using that replaceValue_resolved[OF assms(2) sid]
    by (simp add: linkValues_applyReplacements)
  then show ?thesis using sid by blast
qed

text \<open>
  The last pass changes nothing but values of targeted attributes
  (\<open>applyReplacements_frame\<close>), and among these none that is not shortenable
  (\<open>linkValues_applyReplacements\<close> with \<open>replaceValue_other\<close>).
\<close>

lemma filter_jsmap_set:
  "(\<And>v'. \<not> Q (k, v')) \<Longrightarrow> filter Q (jsmap_set k v m) = filter Q m"
  by (induction m) auto

lemma filter_replaceUrl:
  "(\<And>v'. \<not> Q (attr, v')) \<Longrightarrow> filter Q (replaceUrl cache attr attribs) = filter Q attribs"
  by (auto simp: replaceUrl_def Let_def filter_jsmap_set split: option.splits)

lemma withoutTargets_each:
  "(tag, attr) \<in> set attrTargets \<Longrightarrow>
   withoutTargets (each tag (replaceUrl cache attr) nd) = withoutTargets nd"
proof (induction nd)
  case (Text t)
  then show ?case by simp
next
  case (Element name attribs children)
  have "filter (\<lambda>(k, v). (tag, k) \<notin> set attrTargets) (replaceUrl cache attr attribs)
      = filter (\<lambda>(k, v). (tag, k) \<notin> set attrTargets) attribs"
    using Element.prems by (intro filter_replaceUrl) simp
  then show ?case using Element by (simp cong: map_cong)
qed

lemma applyReplacements_frame:
  "map withoutTargets (applyReplacements cache doc) = map withoutTargets doc"
proof -
  have "map withoutTargets (map (each tag (replaceUrl cache attr)) d) = map withoutTargets d"
    if "(tag, attr) \<in> set attrTargets" for tag attr d
    using that by (simp add: withoutTargets_each)
  then show ?thesis
    by (simp add: applyReplacements_def attrTargets_def del: map_map map_comp_map)
qed

lemma replaceValue_other: "\<not> isShortenable v \<Longrightarrow> replaceValue cache v = v"
  by (simp add: replaceValue_def)

section \<open>Claims about the shorten handler\<close>

text \<open>
  C3. Let a shorten request return a document, on any store, and let \<open>u\<close> be a
  shortenable value that occurs in the targeted attributes of the input, any number of
  times. Then the request made exactly one lookup by \<^verbatim>\<open>originalUrl\<close> for \<open>u\<close>, created
  at most one row for \<open>u\<close> (in at most six calls of \<^verbatim>\<open>create\<close>, the retries after
  collisions included), and every occurrence of \<open>u\<close> is, in the output, the redirect
  address \<^verbatim>\<open>BASE_URL + "/r/" + shortId\<close> for one short id: the one that the single
  turn of the loop for \<open>u\<close> obtained from \<open>allocate\<close>, in the state the turns for the
  earlier addresses left. That short id is the \<^verbatim>\<open>shortId\<close> of the row the lookup
  found, and then no row was created for \<open>u\<close>; or the lookup found nothing, and then it
  is the identifier of the one \<^verbatim>\<open>create\<close> for \<open>u\<close> that the store accepted. The
  store calls are counted by running the handler on the recording store.
\<close>

theorem one_allocation_per_address:
  assumes "shorten (traced P) nanoid B doc ((d, []), n) = (Html doc', ((d', calls), n'))"
    and "isShortenable (Some u)" and "Some u \<in> set (linkValues doc)"
  shows "lookups u calls = 1 \<and> creations u calls \<le> 1 \<and> createCalls u calls \<le> 6
       \<and> length (linkValues doc') = length (linkValues doc)
       \<and> (\<exists>sid us1 us2 cache1 d1 calls1 n1 s2.
             arrayFromSet (jsmap_keys (collectUrls doc)) = us1 @ u # us2
             \<and> resolveUrls (traced P) nanoid B us1 (collectUrls doc) ((d, []), n)
                 = (Inr cache1, ((d1, calls1), n1))
             \<and> allocate (traced P) nanoid u ((d1, calls1), n1) = (Inr sid, s2)
             \<and> ((\<exists>row. fst (findFirst P u d1) = Inr (Some row) \<and> sid = shortId row
                      \<and> creations u calls = 0)
                \<or> (fst (findFirst P u d1) = Inr None \<and> Create sid u True \<in> set calls
                      \<and> creations u calls = 1))
             \<and> (\<forall>i<length (linkValues doc). linkValues doc ! i = Some u \<longrightarrow>
                   linkValues doc' ! i = Some (B @ ''/r/'' @ sid)))"
proof -
  let ?us = "arrayFromSet (jsmap_keys (collectUrls doc))"
  from assms(1) obtain cache' where
    r: "resolveUrls (traced P) nanoid B ?us (collectUrls doc) ((d, []), n)
          = (Inr cache', ((d', calls), n'))"
    and doc': "doc' = applyReplacements cache' doc"
    by (auto simp: shorten_def Let_def split: prod.splits sum.splits)
  have mem: "u \<in> set ?us" and dist: "distinct ?us"
    using assms(2,3) uniqueUrls[of doc] by simp_all
  then have one: "count_list ?us u = 1"
    by (rule count_list_distinct)
  have calls: "lookups u calls = 1 \<and> creations u calls \<le> 1 \<and> createCalls u calls \<le> 6"
    using resolveUrls_calls[OF r, of u] resolveUrls_createCalls[OF r, of u] one
    by (simp add: lookups_def creations_def createCalls_def)
  have len: "length (linkValues doc') = length (linkValues doc)"
    by (simp add: doc' linkValues_applyReplacements)
  from mem obtain us1 us2 where us: "?us = us1 @ u # us2"
    by (auto simp: in_set_conv_decomp)
  have n1: "u \<notin> set us1" and n2: "u \<notin> set us2"
    using dist unfolding us by auto
  from resolveUrls_split[OF r[unfolded us]] obtain cache1 s1 sid s2 where
    r1: "resolveUrls (traced P) nanoid B us1 (collectUrls doc) ((d, []), n) = (Inr cache1, s1)"
    and a: "allocate (traced P) nanoid u s1 = (Inr sid, s2)"
    and r2: "resolveUrls (traced P) nanoid B us2 (jsmap_set u (B @ ''/r/'' @ sid) cache1) s2
               = (Inr cache', ((d', calls), n'))"
    by blast
  obtain d1 calls1 m1 where s1: "s1 = ((d1, calls1), m1)" by (metis surj_pair)
  obtain d2 calls2 m2 where s2: "s2 = ((d2, calls2), m2)" by (metis surj_pair)
  have g: "jsmap_get u cache' = Some (B @ ''/r/'' @ sid)"
    using resolveUrls_cache[OF r2] n2 by (simp add: jsmap_get_set)
  have occ: "\<forall>i<length (linkValues doc). linkValues doc ! i = Some u \<longrightarrow>
                   linkValues doc' ! i = Some (B @ ''/r/'' @ sid)"
    using replaceValue_resolved[OF assms(2) g] by (simp add: doc' linkValues_applyReplacements)
  have c1: "creations u calls1 = 0"
    using resolveUrls_calls[OF r1[unfolded s1], of u] n1 by (simp add: creations_def)
  have c2: "creations u calls \<le> creations u calls2"
    using resolveUrls_calls[OF r2[unfolded s2], of u] n2 by simp
  from resolveUrls_trace[OF r2[unfolded s2]] obtain evs where evs: "calls = calls2 @ evs"
    by blast
  have tie: "(\<exists>row. fst (findFirst P u d1) = Inr (Some row) \<and> sid = shortId row
                      \<and> creations u calls = 0)
                \<or> (fst (findFirst P u d1) = Inr None \<and> Create sid u True \<in> set calls
                      \<and> creations u calls = 1)"
  proof -
    from allocate_trace[OF a[unfolded s1 s2]]
    consider (found) row where "fst (findFirst P u d1) = Inr (Some row)" "sid = shortId row"
        "calls2 = calls1 @ [FindFirst u]"
      | (created) "fst (findFirst P u d1) = Inr None" "Create sid u True \<in> set calls2"
      by blast
    then show ?thesis
    proof cases
      case found
      then have "creations u calls2 = 0" using c1 by (simp add: creations_snoc_lookup)
      then show ?thesis using found c2 by auto
    next
      case created
      then have "Create sid u True \<in> set calls" using evs by simp
      then have "creations u calls = 1" using creations_member[of sid u calls] calls by simp
      then show ?thesis using created \<open>Create sid u True \<in> set calls\<close> by blast
    qed
  qed
  have "\<exists>sid us1 us2 cache1 d1 calls1 n1 s2.
             arrayFromSet (jsmap_keys (collectUrls doc)) = us1 @ u # us2
             \<and> resolveUrls (traced P) nanoid B us1 (collectUrls doc) ((d, []), n)
                 = (Inr cache1, ((d1, calls1), n1))
             \<and> allocate (traced P) nanoid u ((d1, calls1), n1) = (Inr sid, s2)
             \<and> ((\<exists>row. fst (findFirst P u d1) = Inr (Some row) \<and> sid = shortId row
                      \<and> creations u calls = 0)
                \<or> (fst (findFirst P u d1) = Inr None \<and> Create sid u True \<in> set calls
                      \<and> creations u calls = 1))
             \<and> (\<forall>i<length (linkValues doc). linkValues doc ! i = Some u \<longrightarrow>
                   linkValues doc' ! i = Some (B @ ''/r/'' @ sid))"
    using us r1[unfolded s1] a[unfolded s1] tie occ by blast
  then show ?thesis using calls len by blast
qed

theorem one_allocation_per_address_witness:
  "shorten (traced tableStore) (idsInTurn [''cccccccc'', ''dddddddd'']) ''http://localhost:4000''
      threeLinkDoc (([], []), 0)
     = (Html
         [Element ''p'' []
            [Element ''a'' [(''href'', ''http://localhost:4000/r/cccccccc'')] [Text ''one''],
             Element ''img'' [(''src'', ''http://localhost:4000/r/dddddddd'')] [],
             Element ''a'' [(''href'', ''http://localhost:4000/r/cccccccc''), (''class'', ''x'')]
               [Text ''two''],
             Element ''a'' [(''href'', ''mailto:bob@example.com'')] [Text ''mail'']]],
        (([\<lparr>shortId = ''cccccccc'', originalUrl = ''https://example.com''\<rparr>,
           \<lparr>shortId = ''dddddddd'', originalUrl = ''https://img.example.com/a.png''\<rparr>],
          [FindFirst ''https://example.com'',
           Create ''cccccccc'' ''https://example.com'' True,
           FindFirst ''https://img.example.com/a.png'',
           Create ''dddddddd'' ''https://img.example.com/a.png'' True]), 2))
   \<and> linkValues threeLinkDoc
     = [Some ''https://example.com'', Some ''https://example.com'', Some ''mailto:bob@example.com'',
        Some ''https://img.example.com/a.png'']
   \<and> lookups ''https://example.com''
        [FindFirst ''https://example.com'',
         Create ''cccccccc'' ''https://example.com'' True,
         FindFirst ''https://img.example.com/a.png'',
         Create ''dddddddd'' ''https://img.example.com/a.png'' True] = 1
   \<and> creations ''https://example.com''
        [FindFirst ''https://example.com'',
         Create ''cccccccc'' ''https://example.com'' True,
         FindFirst ''https://img.example.com/a.png'',
         Create ''dddddddd'' ''https://img.example.com/a.png'' True] \<le> 1
   \<and> allocate (traced tableStore) (idsInTurn [''cccccccc'', ''dddddddd''])
        ''https://example.com'' (([], []), 0)
     = (Inr ''cccccccc'',
        (([\<lparr>shortId = ''cccccccc'', originalUrl = ''https://example.com''\<rparr>],
          [FindFirst ''https://example.com'',
           Create ''cccccccc'' ''https://example.com'' True]), 1))
   \<and> Create ''cccccccc'' ''https://example.com'' True
       \<in> set [FindFirst ''https://example.com'',
               Create ''cccccccc'' ''https://example.com'' True,
               FindFirst ''https://img.example.com/a.png'',
               Create ''dddddddd'' ''https://img.example.com/a.png'' True]"
proof -
  let ?doc' = "[Element ''p'' []
            [Element ''a'' [(''href'', ''http://localhost:4000/r/cccccccc'')] [Text ''one''],
             Element ''img'' [(''src'', ''http://localhost:4000/r/dddddddd'')] [],
             Element ''a'' [(''href'', ''http://localhost:4000/r/cccccccc''), (''class'', ''x'')]
               [Text ''two''],
             Element ''a'' [(''href'', ''mailto:bob@example.com'')] [Text ''mail'']]]"
  let ?rows = "[\<lparr>shortId = ''cccccccc'', originalUrl = ''https://example.com''\<rparr>,
           \<lparr>shortId = ''dddddddd'', originalUrl = ''https://img.example.com/a.png''\<rparr>]"
  let ?calls = "[FindFirst ''https://example.com'',
           Create ''cccccccc'' ''https://example.com'' True,
           FindFirst ''https://img.example.com/a.png'',
           Create ''dddddddd'' ''https://img.example.com/a.png'' True]"
  have run: "shorten (traced tableStore) (idsInTurn [''cccccccc'', ''dddddddd''])
      ''http://localhost:4000'' threeLinkDoc (([], []), 0) = (Html ?doc', ((?rows, ?calls), 2))"
    by code_simp
  have q: "isShortenable (Some ''https://example.com'')" by code_simp
  have lv: "linkValues threeLinkDoc
     = [Some ''https://example.com'', Some ''https://example.com'', Some ''mailto:bob@example.com'',
        Some ''https://img.example.com/a.png'']"
    by code_simp
  have occ: "Some ''https://example.com'' \<in> set (linkValues threeLinkDoc)"
    by (simp add: lv)
  have al: "allocate (traced tableStore) (idsInTurn [''cccccccc'', ''dddddddd''])
        ''https://example.com'' (([], []), 0)
     = (Inr ''cccccccc'',
        (([\<lparr>shortId = ''cccccccc'', originalUrl = ''https://example.com''\<rparr>],
          [FindFirst ''https://example.com'',
           Create ''cccccccc'' ''https://example.com'' True]), 1))"
    by code_simp
  note t = one_allocation_per_address[OF run q occ]
  have A: "lookups ''https://example.com'' ?calls = 1
      \<and> creations ''https://example.com'' ?calls \<le> 1"
    using t by blast
  have B: "Create ''cccccccc'' ''https://example.com'' True \<in> set ?calls" by simp
  show ?thesis using A B run lv al by simp
qed

section \<open>Facts about the table store and the redirect handler\<close>

lemma tableStore_create:
  "create tableStore sid url rows =
     (if sid \<in> set (map shortId rows) then (Inl (uniqueViolation ''shortId''), rows)
      else if url \<in> set (map originalUrl rows) then (Inl (uniqueViolation ''originalUrl''), rows)
      else (Inr \<lparr>shortId = sid, originalUrl = url\<rparr>,
            rows @ [\<lparr>shortId = sid, originalUrl = url\<rparr>]))"
  by (simp add: tableStore_def)

lemma tableStore_findFirst:
  "findFirst tableStore url rows = (Inr (find (\<lambda>r. originalUrl r = url) rows), rows)"
  by (simp add: tableStore_def)

lemma tableStore_findUnique:
  "findUnique tableStore sid rows = (Inr (find (\<lambda>r. shortId r = sid) rows), rows)"
  by (simp add: tableStore_def)

lemma Url_eta: "\<lparr>shortId = shortId row, originalUrl = originalUrl row\<rparr> = row"
  by (cases row) simp

lemma loop_rows:
  "createUrlLoop tableStore nanoid url len maxAttempts attempt le (rows, n) = (r, (rows', n'))
   \<Longrightarrow> (case r of
          Inl e \<Rightarrow> rows' = rows
        | Inr sid \<Rightarrow> rows' = rows @ [\<lparr>shortId = sid, originalUrl = url\<rparr>]
                     \<and> sid \<notin> set (map shortId rows))"
proof (induction "maxAttempts - attempt" arbitrary: attempt le n)
  case 0
  then have "\<not> attempt < maxAttempts" by simp
  then show ?case using "0.prems" by (auto simp: loop_exhausted)
next
  case (Suc m)
  then have lt: "attempt < maxAttempts" by simp
  let ?sid = "nanoid n len"
  consider (taken) "?sid \<in> set (map shortId rows)"
    | (dup) "?sid \<notin> set (map shortId rows)" "url \<in> set (map originalUrl rows)"
    | (fresh) "?sid \<notin> set (map shortId rows)" "url \<notin> set (map originalUrl rows)"
    by blast
  then show ?case
  proof cases
    case taken
    then have c: "create tableStore ?sid url rows
        = (Inl (PrismaClientKnownRequestError ''P2002'' (TargetArray [''shortId''])), rows)"
      by (simp add: tableStore_create uniqueViolation_def)
    have "createUrlLoop tableStore nanoid url len maxAttempts attempt le (rows, n)
        = createUrlLoop tableStore nanoid url len maxAttempts (Suc attempt)
            (Some (PrismaClientKnownRequestError ''P2002'' (TargetArray [''shortId'']))) (rows, Suc n)"
      using lt c by (intro loop_retry) (auto simp: targets_of_def)
    then have "createUrlLoop tableStore nanoid url len maxAttempts (Suc attempt)
            (Some (PrismaClientKnownRequestError ''P2002'' (TargetArray [''shortId'']))) (rows, Suc n)
          = (r, (rows', n'))"
      using Suc.prems by simp
    moreover have "m = maxAttempts - Suc attempt" using Suc.hyps(2) by simp
    ultimately show ?thesis by (rule Suc.hyps(1)[rotated])
  next
    case dup
    then have c: "create tableStore ?sid url rows
        = (Inl (PrismaClientKnownRequestError ''P2002'' (TargetArray [''originalUrl''])), rows)"
      by (simp add: tableStore_create uniqueViolation_def)
    have "createUrlLoop tableStore nanoid url len maxAttempts attempt le (rows, n)
        = (Inl (PrismaClientKnownRequestError ''P2002'' (TargetArray [''originalUrl''])), (rows, Suc n))"
      using lt c by (intro loop_rethrow) (auto simp: targets_of_def)
    then show ?thesis using Suc.prems by auto
  next
    case fresh
    then have c: "create tableStore ?sid url rows
        = (Inr \<lparr>shortId = ?sid, originalUrl = url\<rparr>, rows @ [\<lparr>shortId = ?sid, originalUrl = url\<rparr>])"
      by (simp add: tableStore_create)
    have "createUrlLoop tableStore nanoid url len maxAttempts attempt le (rows, n)
        = (Inr ?sid, (rows @ [\<lparr>shortId = ?sid, originalUrl = url\<rparr>], Suc n))"
      using lt c by (rule loop_created)
    then show ?thesis using Suc.prems fresh by auto
  qed
qed

lemma allocate_rows:
  assumes "allocate tableStore nanoid url (rows, n) = (Inr sid, (rows', n'))"
  shows "(\<exists>extra. rows' = rows @ extra) \<and> \<lparr>shortId = sid, originalUrl = url\<rparr> \<in> set rows'
       \<and> (distinct (map shortId rows) \<longrightarrow> distinct (map shortId rows'))"
proof (cases "find (\<lambda>r. originalUrl r = url) rows")
  case None
  then have "createUrlLoop tableStore nanoid url 8 6 0 None (rows, n) = (Inr sid, (rows', n'))"
    using assms by (simp add: allocate_def tableStore_findFirst createUrlWithUniqueShortId_def)
  from loop_rows[OF this] show ?thesis by auto
next
  case (Some row)
  then have "row \<in> set rows" "originalUrl row = url"
    by (auto simp: find_Some_iff in_set_conv_nth)
  moreover have "sid = shortId row" "rows' = rows"
    using assms Some by (auto simp: allocate_def tableStore_findFirst)
  ultimately show ?thesis by (auto simp: Url_eta)
qed

lemma resolveUrls_rows:
  "resolveUrls tableStore nanoid B us cache (rows, n) = (Inr cache', (rows', n'))
   \<Longrightarrow> distinct us
   \<Longrightarrow> (\<exists>extra. rows' = rows @ extra)
     \<and> (distinct (map shortId rows) \<longrightarrow> distinct (map shortId rows'))
     \<and> (\<forall>u\<in>set us. \<exists>sid. jsmap_get u cache' = Some (B @ ''/r/'' @ sid)
                        \<and> \<lparr>shortId = sid, originalUrl = u\<rparr> \<in> set rows')"
proof (induction us arbitrary: cache rows n)
  case Nil
  then show ?case by simp
next
  case (Cons url us)
  from Cons.prems(1) obtain sid s1 where
    a: "allocate tableStore nanoid url (rows, n) = (Inr sid, s1)"
    and r: "resolveUrls tableStore nanoid B us (jsmap_set url (B @ ''/r/'' @ sid) cache) s1
              = (Inr cache', (rows', n'))"
    by (auto split: prod.splits sum.splits)
  obtain rows1 n1 where s1: "s1 = (rows1, n1)" by (cases s1)
  note x = allocate_rows[OF a[unfolded s1]]
  have d: "distinct us" "url \<notin> set us" using Cons.prems(2) by auto
  note y = Cons.IH[OF r[unfolded s1] d(1)]
  have g: "jsmap_get url cache' = Some (B @ ''/r/'' @ sid)"
    using resolveUrls_cache[OF r] d(2) by (simp add: jsmap_get_set)
  have "\<lparr>shortId = sid, originalUrl = url\<rparr> \<in> set rows'" using x y by auto
  then show ?case using x y g by auto
qed

lemma find_by_shortId:
  "distinct (map shortId rows) \<Longrightarrow> row \<in> set rows \<Longrightarrow>
   find (\<lambda>r. shortId r = shortId row) rows = Some row"
  by (induction rows) auto

lemma cacheGet_not_live:
  "cacheGet cfg now1 now2 ident rc = (None, jsmap_delete ident rc)" if "\<not> live now1 ident rc"
proof (cases "jsmap_get ident rc")
  case None
  then have "ident \<notin> set (jsmap_keys rc)" by (simp add: jsmap_get_None)
  then show ?thesis using None by (simp add: cacheGet_def jsmap_delete_absent)
next
  case (Some e)
  then show ?thesis using that by (simp add: live_def cacheGet_def)
qed

lemma redirect_not_live:
  assumes "\<not> live now1 ident rc"
  shows "redirect P cfg now1 now2 now3 ident (d, rc) =
     (case findUnique P ident d of
        (Inl e, d') \<Rightarrow> (InternalServerError, (d', jsmap_delete ident rc))
      | (Inr None, d') \<Rightarrow> (NotFound, (d', cacheSet cfg now3 ident None (jsmap_delete ident rc)))
      | (Inr (Some row), d') \<Rightarrow>
          (Redirect (originalUrl row),
           (d', cacheSet cfg now3 ident (Some (originalUrl row)) (jsmap_delete ident rc))))"
  by (simp add: redirect_def cacheGet_not_live[OF assms] split: prod.splits sum.splits option.splits)

lemma redirect_live:
  assumes "jsmap_get ident rc = Some e" "now1 < expiresAt e"
  shows "redirect P cfg now1 now2 now3 ident (d, rc) =
     ((case entryValue e of None \<Rightarrow> NotFound | Some url \<Rightarrow> Redirect url),
      (d, snd (cacheGet cfg now1 now2 ident rc)))"
  using assms by (auto simp: redirect_def cacheGet_def Let_def split: option.splits)

lemma traced_findUnique:
  "findUnique (traced P) sid (d, tr)
     = (fst (findUnique P sid d), (snd (findUnique P sid d), tr @ [FindUnique sid]))"
  by (simp add: traced_def split: prod.splits)

lemma redirect_store_calls:
  "redirect (traced tableStore) cfg now1 now2 now3 X ((rows0, calls), rc)
     = (fst (redirect tableStore cfg now1 now2 now3 X (rows0, rc)),
        ((rows0, calls @ (if live now1 X rc then [] else [FindUnique X])),
         snd (snd (redirect tableStore cfg now1 now2 now3 X (rows0, rc)))))"
proof (cases "live now1 X rc")
  case True
  then obtain e where e: "jsmap_get X rc = Some e" "now1 < expiresAt e"
    by (auto simp: live_def split: option.splits)
  show ?thesis
    using True redirect_live[OF e, of "traced tableStore" cfg now2 now3 "(rows0, calls)"]
      redirect_live[OF e, of tableStore cfg now2 now3 rows0]
    by simp
next
  case False
  show ?thesis
    using False redirect_not_live[OF False, of "traced tableStore" cfg now2 now3 "(rows0, calls)"]
      redirect_not_live[OF False, of tableStore cfg now2 now3 rows0]
    by (simp add: traced_findUnique tableStore_findUnique split: option.splits)
qed

section \<open>Claims about resolution\<close>

text \<open>
  C2 (as amended). On the table store with unique short ids, let a shorten request
  return a document and let \<open>U\<close> be a shortenable value of a targeted attribute of the
  input. Then there is a short id \<open>S\<close> such that every occurrence of \<open>U\<close> is rewritten
  to \<^verbatim>\<open>BASE_URL + "/r/" + S\<close>, the store finds the row of \<open>S\<close> and \<open>U\<close> by
  \<^verbatim>\<open>shortId\<close>, and a redirect request for \<open>S\<close> behaves as follows, whatever the
  cache and the clock. If the cache has no live entry for \<open>S\<close> (none, or an expired one,
  which is removed), the handler reads the store by \<^verbatim>\<open>shortId\<close>, caches \<open>U\<close> and
  redirects to \<open>U\<close>. If the cache has a live entry for \<open>S\<close>, the handler answers from
  it and does not read the store: it redirects to the cached address, and it answers
  not-found when the entry is a 404 cached before the mapping existed. An identifier the
  store does not have, with no live entry, is answered not-found and cached as a 404.
  The redirect to \<open>U\<close> also holds on every later state of the store that has the
  rows of this one and unique short ids: rows are only ever added.
  On the recording store the handler gives the same answer and the same cache, and the
  calls it adds to the record are none when the identifier has a live entry and the one
  lookup by \<^verbatim>\<open>shortId\<close> when it has not.
\<close>

theorem resolution_round_trip:
  assumes "distinct (map shortId rows)"
    and "shorten tableStore nanoid B doc (rows, n) = (Html doc', (rows', n'))"
    and "isShortenable (Some U)" and "Some U \<in> set (linkValues doc)"
  shows "(\<exists>S. (\<forall>i<length (linkValues doc). linkValues doc ! i = Some U \<longrightarrow>
                 linkValues doc' ! i = Some (B @ ''/r/'' @ S))
            \<and> findUnique tableStore S rows' = (Inr (Some \<lparr>shortId = S, originalUrl = U\<rparr>), rows')
            \<and> (\<forall>cfg now1 now2 now3 rc.
                 (\<not> live now1 S rc \<longrightarrow>
                    redirect tableStore cfg now1 now2 now3 S (rows', rc)
                      = (Redirect U, (rows', cacheSet cfg now3 S (Some U) (jsmap_delete S rc))))
               \<and> (\<forall>e. jsmap_get S rc = Some e \<and> now1 < expiresAt e \<longrightarrow>
                    redirect tableStore cfg now1 now2 now3 S (rows', rc)
                      = ((case entryValue e of None \<Rightarrow> NotFound | Some url \<Rightarrow> Redirect url),
                         (rows', snd (cacheGet cfg now1 now2 S rc))))
               \<and> (\<forall>later. distinct (map shortId (rows' @ later)) \<and> \<not> live now1 S rc \<longrightarrow>
                    redirect tableStore cfg now1 now2 now3 S (rows' @ later, rc)
                      = (Redirect U,
                         (rows' @ later, cacheSet cfg now3 S (Some U) (jsmap_delete S rc))))))
       \<and> (\<forall>X cfg now1 now2 now3 rc.
             \<not> live now1 X rc \<and> find (\<lambda>r. shortId r = X) rows' = None \<longrightarrow>
               redirect tableStore cfg now1 now2 now3 X (rows', rc)
                 = (NotFound, (rows', cacheSet cfg now3 X None (jsmap_delete X rc))))
       \<and> (\<forall>X cfg now1 now2 now3 rc calls.
             redirect (traced tableStore) cfg now1 now2 now3 X ((rows', calls), rc)
               = (fst (redirect tableStore cfg now1 now2 now3 X (rows', rc)),
                  ((rows', calls @ (if live now1 X rc then [] else [FindUnique X])),
                   snd (snd (redirect tableStore cfg now1 now2 now3 X (rows', rc))))))"
proof (intro conjI)
  let ?us = "arrayFromSet (jsmap_keys (collectUrls doc))"
  from assms(2) obtain cache' where
    r: "resolveUrls tableStore nanoid B ?us (collectUrls doc) (rows, n) = (Inr cache', (rows', n'))"
    and doc': "doc' = applyReplacements cache' doc"
    by (auto simp: shorten_def Let_def split: prod.splits sum.splits)
  have u: "U \<in> set ?us" and d: "distinct ?us"
    using assms(3,4) uniqueUrls[of doc] by simp_all
  from resolveUrls_rows[OF r d] u assms(1) obtain S where
    g: "jsmap_get U cache' = Some (B @ ''/r/'' @ S)"
    and row: "\<lparr>shortId = S, originalUrl = U\<rparr> \<in> set rows'"
    and dist: "distinct (map shortId rows')"
    by blast
  have occ: "\<forall>i<length (linkValues doc). linkValues doc ! i = Some U \<longrightarrow>
                 linkValues doc' ! i = Some (B @ ''/r/'' @ S)"
    using replaceValue_resolved[OF assms(3) g] by (simp add: doc' linkValues_applyReplacements)
  have f: "find (\<lambda>r. shortId r = S) rows' = Some \<lparr>shortId = S, originalUrl = U\<rparr>"
    using find_by_shortId[OF dist row] by simp
  have fu: "findUnique tableStore S rows' = (Inr (Some \<lparr>shortId = S, originalUrl = U\<rparr>), rows')"
    by (simp add: tableStore_findUnique f)
  have miss: "redirect tableStore cfg now1 now2 now3 S (rows', rc)
       = (Redirect U, (rows', cacheSet cfg now3 S (Some U) (jsmap_delete S rc)))"
    if "\<not> live now1 S rc" for cfg now1 now2 now3 rc
    using redirect_not_live[OF that, of tableStore cfg now2 now3 rows'] by (simp add: fu)
  have hit: "redirect tableStore cfg now1 now2 now3 S (rows', rc)
       = ((case entryValue e of None \<Rightarrow> NotFound | Some url \<Rightarrow> Redirect url),
          (rows', snd (cacheGet cfg now1 now2 S rc)))"
    if "jsmap_get S rc = Some e \<and> now1 < expiresAt e" for cfg now1 now2 now3 rc e
    using that redirect_live[of S rc e now1 tableStore cfg now2 now3 rows'] by simp
  have later: "redirect tableStore cfg now1 now2 now3 S (rows' @ later, rc)
       = (Redirect U, (rows' @ later, cacheSet cfg now3 S (Some U) (jsmap_delete S rc)))"
    if "distinct (map shortId (rows' @ later)) \<and> \<not> live now1 S rc" for cfg now1 now2 now3 rc later
  proof -
    have "\<lparr>shortId = S, originalUrl = U\<rparr> \<in> set (rows' @ later)" using row by simp
    then have "find (\<lambda>r. shortId r = S) (rows' @ later) = Some \<lparr>shortId = S, originalUrl = U\<rparr>"
      using find_by_shortId[of "rows' @ later" "\<lparr>shortId = S, originalUrl = U\<rparr>"] that by simp
    then show ?thesis
      using that redirect_not_live[of now1 S rc tableStore cfg now2 now3 "rows' @ later"]
      by (simp add: tableStore_findUnique)
  qed
  show "\<exists>S. (\<forall>i<length (linkValues doc). linkValues doc ! i = Some U \<longrightarrow>
                 linkValues doc' ! i = Some (B @ ''/r/'' @ S))
            \<and> findUnique tableStore S rows' = (Inr (Some \<lparr>shortId = S, originalUrl = U\<rparr>), rows')
            \<and> (\<forall>cfg now1 now2 now3 rc.
                 (\<not> live now1 S rc \<longrightarrow>
                    redirect tableStore cfg now1 now2 now3 S (rows', rc)
                      = (Redirect U, (rows', cacheSet cfg now3 S (Some U) (jsmap_delete S rc))))
               \<and> (\<forall>e. jsmap_get S rc = Some e \<and> now1 < expiresAt e \<longrightarrow>
                    redirect tableStore cfg now1 now2 now3 S (rows', rc)
                      = ((case entryValue e of None \<Rightarrow> NotFound | Some url \<Rightarrow> Redirect url),
                         (rows', snd (cacheGet cfg now1 now2 S rc))))
               \<and> (\<forall>later. distinct (map shortId (rows' @ later)) \<and> \<not> live now1 S rc \<longrightarrow>
                    redirect tableStore cfg now1 now2 now3 S (rows' @ later, rc)
                      = (Redirect U,
                         (rows' @ later, cacheSet cfg now3 S (Some U) (jsmap_delete S rc)))))"
    using occ fu miss hit later by blast
next
  show "\<forall>X cfg now1 now2 now3 rc.
             \<not> live now1 X rc \<and> find (\<lambda>r. shortId r = X) rows' = None \<longrightarrow>
               redirect tableStore cfg now1 now2 now3 X (rows', rc)
                 = (NotFound, (rows', cacheSet cfg now3 X None (jsmap_delete X rc)))"
    by (auto simp: redirect_not_live tableStore_findUnique)
next
  show "\<forall>X cfg now1 now2 now3 rc calls.
             redirect (traced tableStore) cfg now1 now2 now3 X ((rows', calls), rc)
               = (fst (redirect tableStore cfg now1 now2 now3 X (rows', rc)),
                  ((rows', calls @ (if live now1 X rc then [] else [FindUnique X])),
                   snd (snd (redirect tableStore cfg now1 now2 now3 X (rows', rc)))))"
    by (intro allI) (rule redirect_store_calls)
qed

theorem resolution_round_trip_witness:
  "shorten tableStore (idsInTurn [''cccccccc'']) ''http://localhost:4000'' oneLinkDoc ([], 0)
     = (Html [Element ''a'' [(''href'', ''http://localhost:4000/r/cccccccc'')] [Text ''here'']],
        ([exampleRow], 1))
   \<and> redirect tableStore default_config 5 5 6 ''cccccccc'' ([exampleRow], [])
     = (Redirect ''https://example.com'',
        ([exampleRow], [(''cccccccc'', \<lparr>entryValue = Some ''https://example.com'', expiresAt = 300006\<rparr>)]))
   \<and> redirect tableStore default_config 5 5 6 ''zzzzzzzz'' ([exampleRow], [])
     = (NotFound, ([exampleRow], [(''zzzzzzzz'', \<lparr>entryValue = None, expiresAt = 30006\<rparr>)]))
   \<and> redirect (traced tableStore) default_config 7 7 8 ''cccccccc''
        (([exampleRow], []),
         [(''cccccccc'', \<lparr>entryValue = Some ''https://example.com'', expiresAt = 300006\<rparr>)])
     = (Redirect ''https://example.com'',
        (([exampleRow], []),
         [(''cccccccc'', \<lparr>entryValue = Some ''https://example.com'', expiresAt = 300007\<rparr>)]))"
proof -
  let ?B = "''http://localhost:4000''"
  let ?U = "''https://example.com''"
  let ?doc' = "[Element ''a'' [(''href'', ''http://localhost:4000/r/cccccccc'')] [Text ''here'']]"
  have inv: "distinct (map shortId ([] :: Url list))" by simp
  have run: "shorten tableStore (idsInTurn [''cccccccc'']) ?B oneLinkDoc ([], 0)
     = (Html ?doc', ([exampleRow], 1))"
    by code_simp
  have q: "isShortenable (Some ?U)" by code_simp
  have lv: "linkValues oneLinkDoc = [Some ?U]" by code_simp
  have lv': "linkValues ?doc' = [Some ''http://localhost:4000/r/cccccccc'']" by code_simp
  have occ: "Some ?U \<in> set (linkValues oneLinkDoc)" by (simp add: lv)
  note t = resolution_round_trip[OF inv run q occ]
  from t[THEN conjunct1] obtain S where
    s1: "\<forall>i<length (linkValues oneLinkDoc). linkValues oneLinkDoc ! i = Some ?U \<longrightarrow>
                 linkValues ?doc' ! i = Some (?B @ ''/r/'' @ S)"
    and s2: "\<forall>cfg now1 now2 now3 rc.
                 (\<not> live now1 S rc \<longrightarrow>
                    redirect tableStore cfg now1 now2 now3 S ([exampleRow], rc)
                      = (Redirect ?U, ([exampleRow], cacheSet cfg now3 S (Some ?U) (jsmap_delete S rc))))"
    by blast
  have "Some (?B @ ''/r/'' @ ''cccccccc'') = Some (?B @ ''/r/'' @ S)"
    using s1 lv lv' by simp
  then have S: "S = ''cccccccc''" by simp
  have nl: "\<not> live 5 ''cccccccc'' []" by (simp add: live_def)
  have A: "redirect tableStore default_config 5 5 6 ''cccccccc'' ([exampleRow], [])
     = (Redirect ?U,
        ([exampleRow], [(''cccccccc'', \<lparr>entryValue = Some ?U, expiresAt = 300006\<rparr>)]))"
    using s2 nl unfolding S by (simp add: cacheSet_def default_config_def)
  have f: "find (\<lambda>r. shortId r = ''zzzzzzzz'') [exampleRow] = None" by (simp add: exampleRow_def)
  have nz: "\<not> live 5 ''zzzzzzzz'' []" by (simp add: live_def)
  have B: "redirect tableStore default_config 5 5 6 ''zzzzzzzz'' ([exampleRow], [])
     = (NotFound, ([exampleRow], [(''zzzzzzzz'', \<lparr>entryValue = None, expiresAt = 30006\<rparr>)]))"
    using t[THEN conjunct2, THEN conjunct1] f nz by (simp add: cacheSet_def default_config_def)
  have lh: "live 7 ''cccccccc''
      [(''cccccccc'', \<lparr>entryValue = Some ?U, expiresAt = 300006\<rparr>)]"
    by (simp add: live_def)
  have h: "redirect tableStore default_config 7 7 8 ''cccccccc''
      ([exampleRow], [(''cccccccc'', \<lparr>entryValue = Some ?U, expiresAt = 300006\<rparr>)])
     = (Redirect ?U,
        ([exampleRow], [(''cccccccc'', \<lparr>entryValue = Some ?U, expiresAt = 300007\<rparr>)]))"
    by code_simp
  have C: "redirect (traced tableStore) default_config 7 7 8 ''cccccccc''
      (([exampleRow], []), [(''cccccccc'', \<lparr>entryValue = Some ?U, expiresAt = 300006\<rparr>)])
     = (Redirect ?U,
        (([exampleRow], []),
         [(''cccccccc'', \<lparr>entryValue = Some ?U, expiresAt = 300007\<rparr>)]))"
    using t[THEN conjunct2, THEN conjunct2] lh by (simp add: h)
  show ?thesis using run A B C by blast
qed

text \<open>
  C2 as stated fails on a cached 404. A redirect request for \<^verbatim>\<open>cccccccc\<close> finds
  nothing and caches the 404 until 30000; a shorten request then maps
  \<^verbatim>\<open>https://example.com\<close> to \<^verbatim>\<open>cccccccc\<close>; the redirect request for
  \<^verbatim>\<open>cccccccc\<close> at 1000 answers not-found, and extends the 404 to 31000.
\<close>

theorem stale_tombstone_counterexample:
  "redirect tableStore default_config 0 0 0 ''cccccccc'' ([], [])
     = (NotFound, ([], [(''cccccccc'', \<lparr>entryValue = None, expiresAt = 30000\<rparr>)]))
   \<and> shorten tableStore (idsInTurn [''cccccccc'']) ''http://localhost:4000'' oneLinkDoc ([], 0)
     = (Html [Element ''a'' [(''href'', ''http://localhost:4000/r/cccccccc'')] [Text ''here'']],
        ([exampleRow], 1))
   \<and> redirect tableStore default_config 1000 1000 1000 ''cccccccc''
        ([exampleRow], [(''cccccccc'', \<lparr>entryValue = None, expiresAt = 30000\<rparr>)])
     = (NotFound, ([exampleRow], [(''cccccccc'', \<lparr>entryValue = None, expiresAt = 31000\<rparr>)]))"
  by code_simp

end
